theory Spec2Isabelle
  imports Main "HOL-Library.Sublist" "HOL-Library.Multiset"
begin

section \<open>Text helpers of \<^verbatim>\<open>parse-panini-checklist-csv.py\<close>\<close>

text \<open>
  Strings are lists of characters; the model covers ASCII text, where Python's
  \<^verbatim>\<open>str.isspace\<close>, \<^verbatim>\<open>str.isdigit\<close> and \<^verbatim>\<open>str.lower\<close> are the predicates below.
  Two failures of the script lie outside this model, and no statement below says that
  every frame with a row gives a document: outside ASCII, \<^verbatim>\<open>isdigit\<close> accepts characters (such as a
  superscript two) on which \<^verbatim>\<open>int\<close> then raises \<^verbatim>\<open>ValueError\<close>; and from Python 3.11
  \<^verbatim>\<open>int\<close> raises \<^verbatim>\<open>ValueError\<close> on a cell of more than 4300 digits. Both are raised
  inside \<^verbatim>\<open>process_csv_with_pandas\<close>, before the output file is opened.
\<close>

definition isspace :: "char \<Rightarrow> bool" where
  "isspace c \<longleftrightarrow> c \<in> set [CHR 0x09, CHR 0x0A, CHR 0x0B, CHR 0x0C, CHR 0x0D,
                         CHR 0x1C, CHR 0x1D, CHR 0x1E, CHR 0x1F, CHR '' '']"

text \<open>\<^verbatim>\<open>s.strip(chars)\<close>: drop the leading and the trailing characters that satisfy \<open>P\<close>.\<close>

definition strip :: "(char \<Rightarrow> bool) \<Rightarrow> string \<Rightarrow> string" where
  "strip P s = rev (dropWhile P (rev (dropWhile P s)))"

text \<open>
  \<^verbatim>\<open>normalize_text\<close>: every cell is a \<^verbatim>\<open>str\<close> after
  \<^verbatim>\<open>read_csv(dtype=str).fillna("")\<close>, so only the \<^verbatim>\<open>s.strip()\<close> branch is reachable.
\<close>

definition normalize_text :: "string \<Rightarrow> string" where
  "normalize_text s = strip isspace s"

definition isdigit_char :: "char \<Rightarrow> bool" where
  "isdigit_char c \<longleftrightarrow> 48 \<le> (of_char c :: nat) \<and> (of_char c :: nat) \<le> 57"

text \<open>\<^verbatim>\<open>s.isdigit()\<close>: non-empty and all digits.\<close>

definition isdigit :: "string \<Rightarrow> bool" where
  "isdigit s \<longleftrightarrow> s \<noteq> [] \<and> list_all isdigit_char s"

text \<open>\<^verbatim>\<open>int(s)\<close> on a string of digits.\<close>

definition py_int :: "string \<Rightarrow> nat" where
  "py_int s = foldl (\<lambda>acc c. 10 * acc + ((of_char c :: nat) - 48)) 0 s"

text \<open>\<^verbatim>\<open>str(n)\<close> for a non-negative integer: its decimal digits.\<close>

function py_str :: "nat \<Rightarrow> string" where
  "py_str n = (if n < 10 then [char_of (48 + n)]
               else py_str (n div 10) @ [char_of (48 + n mod 10)])"
  by pat_completeness auto
termination
  by (relation "measure id") auto

declare py_str.simps [simp del]

definition normalize_card_number :: "string \<Rightarrow> string" where
  "normalize_card_number num_str =
     (let num_str = normalize_text num_str
      in if isdigit num_str then py_str (py_int num_str) else num_str)"

definition lower_char :: "char \<Rightarrow> char" where
  "lower_char c = (if 65 \<le> (of_char c :: nat) \<and> (of_char c :: nat) \<le> 90
                   then char_of ((of_char c :: nat) + 32) else c)"

definition lower :: "string \<Rightarrow> string" where
  "lower s = map lower_char s"

text \<open>\<^verbatim>\<open>sub in s\<close> on strings is \<^const>\<open>sublist\<close> (a contiguous run).\<close>

definition get_attributes_for_set :: "string \<Rightarrow> string list" where
  "get_attributes_for_set set_name =
     (let attrs = [];
          lower_set = lower set_name;
          attrs = (if sublist ''autograph'' lower_set then attrs @ [''AU''] else attrs);
          attrs = (if sublist ''relic'' lower_set then attrs @ [''RELIC''] else attrs)
      in attrs)"

section \<open>Rows and groups\<close>

text \<open>
  One row of the data frame. The columns the script reads are fields; \<open>row_index\<close> is
  the row's label in the frame (its position in the file), which tells apart two rows
  with the same cells.
\<close>

record RawRow =
  row_index :: nat
  YEAR :: string
  BRAND :: string
  PROGRAM :: string
  SPORT :: string
  CARD_SET :: string
  CARD_NUMBER :: string
  ATHLETE :: string
  SEQUENCE :: string

record group =
  base_set :: string
  base_rows :: "RawRow list"
  parallel_rows :: "(RawRow \<times> string) list"

subsection \<open>Initial grouping (the loop over \<^verbatim>\<open>df.iterrows()\<close>)\<close>

text \<open>
  The loop state: \<^verbatim>\<open>groups\<close> and the pair \<^verbatim>\<open>current_group\<close>, \<^verbatim>\<open>current_base\<close>; the two
  variables are \<^verbatim>\<open>None\<close> together (before the first row) and assigned together.
\<close>

type_synonym grouper_state = "group list \<times> (group \<times> string) option"

definition parallel_name_of :: "string \<Rightarrow> string \<Rightarrow> string" where
  "parallel_name_of current_base card_set =
     strip (\<lambda>c. c \<in> set '' -'') (normalize_text (drop (length current_base + 1) card_set))"

definition new_group :: "string \<Rightarrow> RawRow \<Rightarrow> group" where
  "new_group card_set row = \<lparr>base_set = card_set, base_rows = [row], parallel_rows = []\<rparr>"

fun grouper_step :: "grouper_state \<Rightarrow> RawRow \<Rightarrow> grouper_state" where
  "grouper_step (groups, None) row =
     (let card_set = normalize_text (CARD_SET row)
      in (groups, Some (new_group card_set row, card_set)))"
| "grouper_step (groups, Some (current_group, current_base)) row =
     (let card_set = normalize_text (CARD_SET row)
      in if card_set = current_base \<or> prefix (current_base @ '' '') card_set
         then (if card_set = current_base
               then (groups,
                     Some ((current_group\<lparr>base_rows := base_rows current_group @ [row]\<rparr>),
                           current_base))
               else (groups,
                     Some ((current_group\<lparr>parallel_rows := parallel_rows current_group @
                              [(row, parallel_name_of current_base card_set)]\<rparr>),
                           current_base)))
         else (groups @ [current_group], Some (new_group card_set row, card_set)))"

definition grouper_finish :: "grouper_state \<Rightarrow> group list" where
  "grouper_finish st =
     (case st of (groups, current) \<Rightarrow>
        (case current of None \<Rightarrow> groups | Some (current_group, current_base) \<Rightarrow> groups @ [current_group]))"

definition initial_groups :: "RawRow list \<Rightarrow> group list" where
  "initial_groups rows = grouper_finish (foldl grouper_step ([], None) rows)"

text \<open>The rows a group holds: its base rows and the rows of its parallel entries.\<close>

definition group_members :: "group \<Rightarrow> RawRow list" where
  "group_members g = base_rows g @ map fst (parallel_rows g)"

subsection \<open>Merging (\<^verbatim>\<open>is_parallel_candidate\<close> and the loop over \<^verbatim>\<open>groups\<close>)\<close>

definition get_base_keys :: "group \<Rightarrow> (string \<times> string) set" where
  "get_base_keys g =
     set (map (\<lambda>row. (normalize_card_number (CARD_NUMBER row), normalize_text (ATHLETE row)))
              (base_rows g))"

definition is_parallel_candidate :: "group \<Rightarrow> group \<Rightarrow> bool" where
  "is_parallel_candidate group1 group2 \<longleftrightarrow> get_base_keys group1 = get_base_keys group2"

text \<open>The two inner loops that append to \<^verbatim>\<open>m_group["parallel_rows"]\<close>.\<close>

definition merge_into :: "group \<Rightarrow> group \<Rightarrow> group" where
  "merge_into m_group g =
     m_group\<lparr>parallel_rows := parallel_rows m_group @
        map (\<lambda>row. (row, normalize_text (base_set g))) (base_rows g) @ parallel_rows g\<rparr>"

text \<open>
  The scan \<^verbatim>\<open>for m_group in merged_groups\<close> with its \<^verbatim>\<open>break\<close>: \<open>Some\<close> of the updated
  list when a candidate was found (\<^verbatim>\<open>merged = True\<close>), \<open>None\<close> otherwise.
\<close>

fun merge_scan :: "group list \<Rightarrow> group \<Rightarrow> group list option" where
  "merge_scan [] g = None"
| "merge_scan (m_group # rest) g =
     (if is_parallel_candidate m_group g then Some (merge_into m_group g # rest)
      else map_option ((#) m_group) (merge_scan rest g))"

definition merge_step :: "group list \<Rightarrow> group \<Rightarrow> group list" where
  "merge_step merged_groups g =
     (case merge_scan merged_groups g of
        Some merged_groups' \<Rightarrow> merged_groups'
      | None \<Rightarrow> merged_groups @ [g])"

definition merge_groups :: "group list \<Rightarrow> group list" where
  "merge_groups groups = foldl merge_step [] groups"

section \<open>Output objects\<close>

text \<open>
  JSON values, as \<^verbatim>\<open>json.dump\<close> writes them and \<^verbatim>\<open>json.load\<close> reads them. A float is
  kept as a mantissa and an exponent; no function here looks into it. In a loaded object
  the keys are pairwise different (\<^verbatim>\<open>json.load\<close> keeps one value per key).
\<close>

datatype json =
    JNull
  | JBool bool
  | JInt int
  | JFloat int int
  | JStr string
  | JArr "json list"
  | JObj "(string \<times> json) list"

text \<open>
  The dictionaries the script builds, as records. An optional key is an \<open>option\<close>
  field: \<open>None\<close> means the key is not in the dictionary. \<open>card_sequence\<close> is the
  temporary key \<^verbatim>\<open>_sequence\<close>, whose value may itself be Python's \<^verbatim>\<open>None\<close>.
  A \<^verbatim>\<open>uniqueId\<close> is the position of its \<^verbatim>\<open>generate_uuid()\<close> call among the calls of
  the run.
\<close>

record parallel_obj =
  parallel_name :: string
  parallel_numberedTo :: "nat option"

record card_obj =
  card_uniqueId :: nat
  card_number :: string
  card_name :: string
  card_sequence :: "nat option option"
  card_parallels :: "parallel_obj list option"
  card_attributes :: "string list option"
  card_numberedTo :: "nat option"
  card_note :: "string option"

record set_obj =
  set_uniqueId :: nat
  set_name :: string
  set_cards :: "card_obj list"
  set_parallels :: "parallel_obj list"
  set_variations :: "json list"
  set_numberedTo :: "nat option"

record top_obj =
  top_schema :: string
  top_name :: string
  top_version :: string
  top_uniqueId :: nat
  top_attributes :: "json list"
  top_notes :: "json list"
  top_sets :: "set_obj list"

section \<open>Building one set from a merged group\<close>

text \<open>\<^verbatim>\<open>seq_value = int(seq_str) if seq_str.isdigit() else None\<close>\<close>

definition seq_value_of :: "RawRow \<Rightarrow> nat option" where
  "seq_value_of row =
     (let seq_str = normalize_text (SEQUENCE row)
      in if isdigit seq_str then Some (py_int seq_str) else None)"

subsection \<open>Base rows\<close>

text \<open>
  State of the loop over \<^verbatim>\<open>base_rows\<close>: \<^verbatim>\<open>base_cards\<close>, \<^verbatim>\<open>base_card_numbers\<close>,
  \<^verbatim>\<open>base_sequences\<close> and the number of identifiers drawn so far. \<^verbatim>\<open>base_sequences\<close> is a
  set of Python values, so that the test \<^verbatim>\<open>None not in base_sequences\<close> can be written.
\<close>

type_synonym base_state = "card_obj list \<times> string set \<times> nat option set \<times> nat"

definition base_row_step :: "string list \<Rightarrow> base_state \<Rightarrow> RawRow \<Rightarrow> base_state" where
  "base_row_step set_attributes st row =
     (case st of (base_cards, base_card_numbers, base_sequences, uid) \<Rightarrow>
        (let card_number = normalize_card_number (CARD_NUMBER row);
             athlete = normalize_text (ATHLETE row);
             seq_value = seq_value_of row;
             base_card_numbers = insert card_number base_card_numbers;
             base_sequences = (if seq_value \<noteq> None then insert seq_value base_sequences
                               else base_sequences);
             card_obj = \<lparr>card_uniqueId = uid, card_number = card_number, card_name = athlete,
                         card_sequence = Some seq_value, card_parallels = Some [],
                         card_attributes = (if set_attributes \<noteq> [] then Some set_attributes else None),
                         card_numberedTo = None, card_note = None\<rparr>
         in (base_cards @ [card_obj], base_card_numbers, base_sequences, Suc uid)))"

text \<open>The test of a uniform sequence, used for the base cards and for each parallel name.\<close>

definition uniform_seq :: "nat option set \<Rightarrow> bool" where
  "uniform_seq sequences \<longleftrightarrow> sequences \<noteq> {} \<and> card sequences = 1 \<and> None \<notin> sequences"

text \<open>The clean-up loop over \<^verbatim>\<open>base_cards\<close>.\<close>

definition cleanup_card :: "bool \<Rightarrow> card_obj \<Rightarrow> card_obj" where
  "cleanup_card uniform_base_seq card_obj =
     (let card_obj =
            (if uniform_base_seq then card_obj\<lparr>card_sequence := None\<rparr>
             else (let card_obj =
                         (case card_sequence card_obj of
                            Some (Some v) \<Rightarrow> card_obj\<lparr>card_numberedTo := Some v\<rparr>
                          | _ \<Rightarrow> card_obj)
                   in card_obj\<lparr>card_sequence := None\<rparr>))
      in if card_parallels card_obj = Some [] then card_obj\<lparr>card_parallels := None\<rparr>
         else card_obj)"

subsection \<open>Parallel rows\<close>

text \<open>
  \<^verbatim>\<open>parallels_by_name\<close> is a dictionary filled with \<^verbatim>\<open>setdefault(name, []).append(row)\<close>;
  it keeps its keys in the order of their first insertion, so it is an association list.
\<close>

fun setdefault_append :: "(string \<times> RawRow list) list \<Rightarrow> string \<Rightarrow> RawRow \<Rightarrow> (string \<times> RawRow list) list" where
  "setdefault_append [] k row = [(k, [row])]"
| "setdefault_append ((k', rows_list) # d) k row =
     (if k' = k then (k', rows_list @ [row]) # d
      else (k', rows_list) # setdefault_append d k row)"

definition parallels_by_name :: "(RawRow \<times> string) list \<Rightarrow> (string \<times> RawRow list) list" where
  "parallels_by_name parallel_rows' =
     foldl (\<lambda>d (row, parallel_name'). setdefault_append d parallel_name' row) [] parallel_rows'"

record synth_state =
  base_cards :: "card_obj list"
  base_card_numbers :: "string set"
  set_level_parallels :: "parallel_obj list"
  next_uuid :: nat

text \<open>The first loop over \<^verbatim>\<open>rows_list\<close>: the numbers and the sequence values of a name.\<close>

definition scan_parallel_row :: "string set \<times> nat option set \<Rightarrow> RawRow \<Rightarrow> string set \<times> nat option set" where
  "scan_parallel_row acc row =
     (case acc of (parallel_card_numbers, parallel_sequences) \<Rightarrow>
        (let card_number = normalize_card_number (CARD_NUMBER row);
             parallel_card_numbers = insert card_number parallel_card_numbers;
             seq_value = seq_value_of row
         in (parallel_card_numbers,
             (if seq_value \<noteq> None then insert seq_value parallel_sequences
              else parallel_sequences))))"

text \<open>
  The search \<^verbatim>\<open>for card_obj in base_cards\<close> with its \<^verbatim>\<open>break\<close>: the first card with the
  number gets the parallel appended; \<open>None\<close> when no card has the number (\<^verbatim>\<open>found\<close>
  stays \<^verbatim>\<open>False\<close>).
\<close>

fun attach_first :: "string \<Rightarrow> parallel_obj \<Rightarrow> card_obj list \<Rightarrow> card_obj list option" where
  "attach_first card_number' parallel_obj [] = None"
| "attach_first card_number' parallel_obj (card_obj # rest) =
     (if card_number card_obj = card_number'
      then Some (card_obj\<lparr>card_parallels :=
                   Some ((case card_parallels card_obj of None \<Rightarrow> [] | Some ps \<Rightarrow> ps) @ [parallel_obj])\<rparr>
                 # rest)
      else map_option ((#) card_obj) (attach_first card_number' parallel_obj rest))"

definition new_card :: "string list \<Rightarrow> nat \<Rightarrow> RawRow \<Rightarrow> parallel_obj \<Rightarrow> card_obj" where
  "new_card set_attributes uid row parallel_obj =
     \<lparr>card_uniqueId = uid,
      card_number = normalize_card_number (CARD_NUMBER row),
      card_name = normalize_text (ATHLETE row),
      card_sequence = None,
      card_parallels = Some [parallel_obj],
      card_attributes = (if set_attributes \<noteq> [] then Some set_attributes else None),
      card_numberedTo = seq_value_of row,
      card_note = Some ''No Base Set Version''\<rparr>"

definition attach_row :: "string list \<Rightarrow> string \<Rightarrow> synth_state \<Rightarrow> RawRow \<Rightarrow> synth_state" where
  "attach_row set_attributes parallel_name' st row =
     (let card_number = normalize_card_number (CARD_NUMBER row);
          parallel_obj = \<lparr>parallel_name = parallel_name', parallel_numberedTo = seq_value_of row\<rparr>
      in case attach_first card_number parallel_obj (base_cards st) of
           Some cards \<Rightarrow> st\<lparr>base_cards := cards\<rparr>
         | None \<Rightarrow>
             st\<lparr>base_cards := base_cards st @ [new_card set_attributes (next_uuid st) row parallel_obj],
                base_card_numbers := insert card_number (base_card_numbers st),
                next_uuid := Suc (next_uuid st)\<rparr>)"

text \<open>The body of \<^verbatim>\<open>for parallel_name, rows_list in parallels_by_name.items()\<close>.\<close>

definition parallel_name_step :: "string list \<Rightarrow> synth_state \<Rightarrow> string \<times> RawRow list \<Rightarrow> synth_state" where
  "parallel_name_step set_attributes st entry =
     (case entry of (parallel_name', rows_list) \<Rightarrow>
        (case foldl scan_parallel_row ({}, {}) rows_list of
           (parallel_card_numbers, parallel_sequences) \<Rightarrow>
             if parallel_card_numbers = base_card_numbers st
             then st\<lparr>set_level_parallels := set_level_parallels st @
                        [\<lparr>parallel_name = parallel_name',
                          parallel_numberedTo =
                            (if uniform_seq parallel_sequences then the_elem parallel_sequences
                             else None)\<rparr>]\<rparr>
             else foldl (attach_row set_attributes parallel_name') st rows_list))"

subsection \<open>Duplicate removal\<close>

type_synonym dedup_state = "card_obj list \<times> (string \<times> string) set \<times> bool"

definition dedup_step :: "dedup_state \<Rightarrow> card_obj \<Rightarrow> dedup_state" where
  "dedup_step st card' =
     (case st of (unique_cards, seen_keys, duplicates_found) \<Rightarrow>
        (let key = (card_number card', card_name card')
         in if key \<in> seen_keys then (unique_cards, seen_keys, True)
            else (unique_cards @ [card'], insert key seen_keys, duplicates_found)))"

definition duplicate_warning :: "string \<Rightarrow> string" where
  "duplicate_warning base_set' =
     ''Warning: Duplicate records found in set '' @ [CHR 0x27] @ base_set' @ [CHR 0x27] @
     ''. Please manually verify the accuracy.''"

text \<open>The step as a whole: the surviving cards and the lines it prints.\<close>

definition remove_duplicates :: "string \<Rightarrow> card_obj list \<Rightarrow> card_obj list \<times> string list" where
  "remove_duplicates base_set' cards =
     (case foldl dedup_step ([], {}, False) cards of
        (unique_cards, seen_keys, duplicates_found) \<Rightarrow>
          (unique_cards, if duplicates_found then [duplicate_warning base_set'] else []))"

subsection \<open>The set object\<close>

text \<open>
  The body of \<^verbatim>\<open>for group in merged_groups\<close>: from the number of identifiers drawn so far
  and a group, the set object, the lines printed and the new number of identifiers.
\<close>

definition process_group :: "nat \<Rightarrow> group \<Rightarrow> set_obj \<times> string list \<times> nat" where
  "process_group uid g =
     (let set_attributes = get_attributes_for_set (base_set g)
      in case foldl (base_row_step set_attributes) ([], {}, {}, uid) (base_rows g) of
           (cards, numbers, base_sequences, uid) \<Rightarrow>
             (let uniform_base_seq = uniform_seq base_sequences;
                  cards = map (cleanup_card uniform_base_seq) cards;
                  st = foldl (parallel_name_step set_attributes)
                         \<lparr>base_cards = cards, base_card_numbers = numbers,
                          set_level_parallels = [], next_uuid = uid\<rparr>
                         (parallels_by_name (parallel_rows g))
              in case remove_duplicates (base_set g) (base_cards st) of
                   (unique_cards, printed) \<Rightarrow>
                     (\<lparr>set_uniqueId = next_uuid st, set_name = base_set g,
                       set_cards = unique_cards, set_parallels = set_level_parallels st,
                       set_variations = [],
                       set_numberedTo = (if uniform_base_seq then the_elem base_sequences else None)\<rparr>,
                      printed, Suc (next_uuid st))))"

section \<open>The whole run\<close>

datatype py_error = ReadError | KeyError | OSError | SystemExit nat | AttributeError | TypeError

text \<open>
  What \<^verbatim>\<open>pd.read_csv(file_path, dtype=str).fillna("")\<close> returns: the columns of the header
  and the rows.
\<close>

record frame =
  columns :: "string list"
  rows :: "RawRow list"

definition required_columns :: "string list" where
  "required_columns = [''YEAR'', ''BRAND'', ''PROGRAM'', ''SPORT'', ''CARD SET'',
                       ''CARD NUMBER'', ''ATHLETE'', ''SEQUENCE'']"

definition process_groups :: "nat \<Rightarrow> group list \<Rightarrow> set_obj list \<times> string list \<times> nat" where
  "process_groups uid merged_groups =
     foldl (\<lambda>(sets, printed, uid) g.
              (case process_group uid g of
                 (set_obj, printed', uid') \<Rightarrow> (sets @ [set_obj], printed @ printed', uid')))
           ([], [], uid) merged_groups"

text \<open>
  \<^verbatim>\<open>process_csv_with_pandas\<close>, from the result of reading the file: the document and the
  lines printed, or the exception. \<^verbatim>\<open>df.loc[0, "YEAR"]\<close> raises \<^verbatim>\<open>KeyError\<close> on a frame
  without rows. A frame with a row and without one of the columns raises \<^verbatim>\<open>KeyError\<close>
  where the column is first read; every column is read before the first line is printed
  (the four top columns at once, \<^verbatim>\<open>CARD SET\<close> in the grouping, the other three at the
  first base row of the first group), so the model raises it at once.
\<close>

definition process_csv_with_pandas :: "py_error + frame \<Rightarrow> py_error + top_obj \<times> string list" where
  "process_csv_with_pandas loaded =
     (case loaded of
        Inl e \<Rightarrow> Inl e
      | Inr df \<Rightarrow>
          (case rows df of
             [] \<Rightarrow> Inl KeyError
           | row0 # _ \<Rightarrow>
               if \<not> set required_columns \<subseteq> set (columns df) then Inl KeyError
               else
                 (let top_year = normalize_text (YEAR row0);
                      top_brand = normalize_text (BRAND row0);
                      top_program = normalize_text (PROGRAM row0);
                      top_sport = normalize_text (SPORT row0);
                      groups = initial_groups (rows df);
                      merged_groups = merge_groups groups
                  in case process_groups 0 merged_groups of
                       (sets, printed, uid) \<Rightarrow>
                         Inr (\<lparr>top_schema = ''http://json-schema.org/draft-07/schema#'',
                               top_name = top_year @ '' '' @ top_brand @ '' '' @ top_program @ '' '' @ top_sport,
                               top_version = ''1.0'',
                               top_uniqueId = uid,
                               top_attributes = [],
                               top_notes = [],
                               top_sets = sets\<rparr>,
                              printed))))"

subsection \<open>Serialisation\<close>

text \<open>
  \<^verbatim>\<open>json.dump\<close> of the dictionaries: a key is written exactly when it is in the
  dictionary. The order of the keys in an object is not modelled. \<open>uuid\<close> gives the
  string of the \<open>k\<close>-th identifier drawn.
\<close>

definition opt_key :: "string \<Rightarrow> ('a \<Rightarrow> json) \<Rightarrow> 'a option \<Rightarrow> (string \<times> json) list" where
  "opt_key k f v = (case v of None \<Rightarrow> [] | Some x \<Rightarrow> [(k, f x)])"

definition nat_json :: "nat \<Rightarrow> json" where
  "nat_json n = JInt (int n)"

definition parallel_json :: "parallel_obj \<Rightarrow> json" where
  "parallel_json p =
     JObj ([(''name'', JStr (parallel_name p))] @
           opt_key ''numberedTo'' nat_json (parallel_numberedTo p))"

definition card_json :: "(nat \<Rightarrow> string) \<Rightarrow> card_obj \<Rightarrow> json" where
  "card_json uuid c =
     JObj ([(''uniqueId'', JStr (uuid (card_uniqueId c))),
            (''number'', JStr (card_number c)),
            (''name'', JStr (card_name c))] @
           opt_key ''_sequence'' (\<lambda>v. case v of None \<Rightarrow> JNull | Some n \<Rightarrow> nat_json n) (card_sequence c) @
           opt_key ''parallels'' (\<lambda>ps. JArr (map parallel_json ps)) (card_parallels c) @
           opt_key ''attributes'' (\<lambda>as. JArr (map JStr as)) (card_attributes c) @
           opt_key ''numberedTo'' nat_json (card_numberedTo c) @
           opt_key ''note'' JStr (card_note c))"

definition set_json :: "(nat \<Rightarrow> string) \<Rightarrow> set_obj \<Rightarrow> json" where
  "set_json uuid s =
     JObj ([(''uniqueId'', JStr (uuid (set_uniqueId s))),
            (''name'', JStr (set_name s)),
            (''cards'', JArr (map (card_json uuid) (set_cards s))),
            (''parallels'', JArr (map parallel_json (set_parallels s))),
            (''variations'', JArr (set_variations s))] @
           opt_key ''numberedTo'' nat_json (set_numberedTo s))"

definition top_json :: "(nat \<Rightarrow> string) \<Rightarrow> top_obj \<Rightarrow> json" where
  "top_json uuid d =
     JObj [(''$schema'', JStr (top_schema d)),
           (''name'', JStr (top_name d)),
           (''version'', JStr (top_version d)),
           (''uniqueId'', JStr (uuid (top_uniqueId d))),
           (''attributes'', JArr (top_attributes d)),
           (''notes'', JArr (top_notes d)),
           (''sets'', JArr (map (set_json uuid) (top_sets d)))]"

text \<open>
  The sparse-field convention, as a property of a JSON value: in no object, at any
  depth, is one of the four optional fields present with the value \<^verbatim>\<open>null\<close>, an empty
  array, an empty object or an empty string.
\<close>

definition optional_fields :: "string list" where
  "optional_fields = [''numberedTo'', ''attributes'', ''note'', ''parallels'']"

definition empty_value :: "json \<Rightarrow> bool" where
  "empty_value v \<longleftrightarrow> v = JNull \<or> v = JArr [] \<or> v = JObj [] \<or> v = JStr []"

fun sparse :: "json \<Rightarrow> bool" where
  "sparse (JObj kvs) =
     list_all (\<lambda>kv. \<not> (fst kv \<in> set optional_fields \<and> empty_value (snd kv)) \<and> sparse (snd kv)) kvs"
| "sparse (JArr xs) = list_all sparse xs"
| "sparse v = True"

subsection \<open>The script's main block\<close>

text \<open>
  The world the script runs in: what reading each path as a CSV file gives, which paths
  can be opened for writing, the identifiers \<^verbatim>\<open>uuid.uuid4()\<close> will return, the JSON files
  written so far and the lines printed so far. A failure of the write itself, after
  the file was opened, is not modelled.
\<close>

record world =
  csv_files :: "string \<Rightarrow> py_error + frame"
  can_open :: "string \<Rightarrow> bool"
  uuid4 :: "nat \<Rightarrow> string"
  written :: "string \<rightharpoonup> json"
  stdout :: "string list"

definition script_main :: "string list \<Rightarrow> world \<Rightarrow> world \<times> (py_error + unit)" where
  "script_main argv w =
     (if length argv \<noteq> 3
      then (w\<lparr>stdout := stdout w @ [''Usage: python script.py input.csv output.json'']\<rparr>,
            Inl (SystemExit 1))
      else
        (let input_csv = argv ! 1; output_json = argv ! 2
         in case process_csv_with_pandas (csv_files w input_csv) of
              Inl e \<Rightarrow> (w, Inl e)
            | Inr (result, printed) \<Rightarrow>
                (let w = w\<lparr>stdout := stdout w @ printed\<rparr>
                 in if \<not> can_open w output_json then (w, Inl OSError)
                    else (w\<lparr>written := (written w)(output_json \<mapsto> top_json (uuid4 w) result),
                            stdout := stdout w @ [''JSON output written to '' @ output_json]\<rparr>,
                          Inr ()))))"

section \<open>The flattener, \<^verbatim>\<open>build_parquet.py\<close>\<close>

text \<open>
  Python operations on a loaded JSON value: \<^verbatim>\<open>x.get(key, default)\<close> exists on a
  dictionary only, and \<^verbatim>\<open>for y in x\<close> goes through the items of a list, the keys of a
  dictionary and the characters of a string.
\<close>

definition py_get :: "json \<Rightarrow> string \<Rightarrow> json \<Rightarrow> py_error + json" where
  "py_get x key default' =
     (case x of
        JObj kvs \<Rightarrow> (case map_of kvs key of None \<Rightarrow> Inr default' | Some v \<Rightarrow> Inr v)
      | _ \<Rightarrow> Inl AttributeError)"

definition py_iter :: "json \<Rightarrow> py_error + json list" where
  "py_iter x =
     (case x of
        JArr xs \<Rightarrow> Inr xs
      | JObj kvs \<Rightarrow> Inr (map (\<lambda>kv. JStr (fst kv)) kvs)
      | JStr s \<Rightarrow> Inr (map (\<lambda>c. JStr [c]) s)
      | _ \<Rightarrow> Inl TypeError)"

record flat_record =
  category :: string
  year :: string
  release :: string
  source :: json
  set_field :: json
  card_number_field :: json
  card_name_field :: json
  attributes_field :: json
  note_field :: json

text \<open>An exception leaves the loops at once: the first error is the result.\<close>

definition bind_result :: "py_error + 'a \<Rightarrow> ('a \<Rightarrow> py_error + 'b) \<Rightarrow> py_error + 'b" where
  "bind_result r f = (case r of Inl e \<Rightarrow> Inl e | Inr x \<Rightarrow> f x)"

text \<open>The record of one card; every \<^verbatim>\<open>card.get\<close> fails on a card that is no dictionary.\<close>

definition card_record :: "string \<Rightarrow> string \<Rightarrow> string \<Rightarrow> json \<Rightarrow> json \<Rightarrow> json \<Rightarrow> py_error + flat_record" where
  "card_record category' year' release' source' set_name' card' =
     bind_result (py_get card' ''number'' (JStr [])) (\<lambda>number.
     bind_result (py_get card' ''name'' (JStr [])) (\<lambda>name.
     bind_result (py_get card' ''attributes'' (JArr [])) (\<lambda>attributes.
     bind_result (py_get card' ''note'' (JStr [])) (\<lambda>note.
       Inr \<lparr>category = category', year = year', release = release', source = source',
            set_field = set_name', card_number_field = number, card_name_field = name,
            attributes_field = attributes, note_field = note\<rparr>))))"

text \<open>A loop that appends to \<^verbatim>\<open>records\<close> and stops at the first exception.\<close>

fun collect :: "('a \<Rightarrow> py_error + 'b list) \<Rightarrow> 'a list \<Rightarrow> py_error + 'b list" where
  "collect f [] = Inr []"
| "collect f (x # xs) =
     bind_result (f x) (\<lambda>ys. bind_result (collect f xs) (\<lambda>zs. Inr (ys @ zs)))"

definition set_records :: "string \<Rightarrow> string \<Rightarrow> string \<Rightarrow> json \<Rightarrow> json \<Rightarrow> py_error + flat_record list" where
  "set_records category' year' release' source' card_set =
     bind_result (py_get card_set ''name'' (JStr [])) (\<lambda>set_name'.
     bind_result (py_get card_set ''cards'' (JArr [])) (\<lambda>cards.
     bind_result (py_iter cards) (\<lambda>cards.
       collect (\<lambda>card'. bind_result (card_record category' year' release' source' set_name' card')
                                     (\<lambda>r. Inr [r])) cards)))"

definition flatten_card_data :: "string \<Rightarrow> string \<Rightarrow> string \<Rightarrow> json \<Rightarrow> py_error + flat_record list" where
  "flatten_card_data category' year' release' json_data =
     bind_result (py_get json_data ''name'' (JStr [])) (\<lambda>source'.
     bind_result (py_get json_data ''sets'' (JArr [])) (\<lambda>sets.
     bind_result (py_iter sets) (\<lambda>sets.
       collect (set_records category' year' release' source') sets)))"

text \<open>
  \<^verbatim>\<open>json_file.stem\<close> of \<^verbatim>\<open>pathlib\<close>: the name up to its last dot, when that dot is neither
  the first nor the last character.
\<close>

definition rfind :: "char \<Rightarrow> string \<Rightarrow> nat option" where
  "rfind c s = (if c \<in> set s then Some (length s - 1 - length (takeWhile (\<lambda>d. d \<noteq> c) (rev s))) else None)"

definition stem :: "string \<Rightarrow> string" where
  "stem name =
     (case rfind CHR ''.'' name of
        None \<Rightarrow> name
      | Some i \<Rightarrow> if 0 < i \<and> i < length name - 1 then take i name else name)"

text \<open>\<^verbatim>\<open>s.split(sep, 1)\<close> for a one-character separator.\<close>

definition split1 :: "char \<Rightarrow> string \<Rightarrow> string list" where
  "split1 sep s =
     (if sep \<in> set s then [takeWhile (\<lambda>c. c \<noteq> sep) s, tl (dropWhile (\<lambda>c. c \<noteq> sep) s)]
      else [s])"

definition release_of :: "string \<Rightarrow> string" where
  "release_of file_name =
     (let parts = split1 CHR ''-'' (stem file_name)
      in if length parts = 2 then parts ! 1 else parts ! 0)"

text \<open>
  The directory tree under \<^verbatim>\<open>categories\<close>: a file holds what \<^verbatim>\<open>json.load\<close> gives for it
  (an exception for a file that is not JSON), a directory its entries by name.
\<close>

datatype node = File "py_error + json" | Dir "(string \<times> node) list"

text \<open>
  The body of the innermost loop of \<^verbatim>\<open>main\<close>, with its \<^verbatim>\<open>try\<close>: the records one file adds
  to \<^verbatim>\<open>all_records\<close>, none when an exception was caught. Opening a directory raises.
\<close>

definition file_records :: "string \<Rightarrow> string \<Rightarrow> string \<Rightarrow> node \<Rightarrow> flat_record list" where
  "file_records category_dir year_dir file_name n =
     (let release' = release_of file_name
      in case (case n of File loaded \<Rightarrow> bind_result loaded (flatten_card_data category_dir year_dir release')
                       | Dir _ \<Rightarrow> Inl OSError) of
           Inl e \<Rightarrow> []
         | Inr records \<Rightarrow> records)"

text \<open>\<^verbatim>\<open>year_dir.glob("*.json")\<close>: the entries whose name ends in \<^verbatim>\<open>.json\<close>.\<close>

definition glob_json :: "(string \<times> node) list \<Rightarrow> (string \<times> node) list" where
  "glob_json entries = filter (\<lambda>e. suffix ''.json'' (fst e)) entries"

definition year_records :: "string \<Rightarrow> string \<times> node \<Rightarrow> flat_record list" where
  "year_records category_dir e =
     (case snd e of
        Dir files \<Rightarrow> concat (map (\<lambda>f. file_records category_dir (fst e) (fst f) (snd f)) (glob_json files))
      | File _ \<Rightarrow> [])"

definition category_records :: "string \<times> node \<Rightarrow> flat_record list" where
  "category_records e =
     (case snd e of
        Dir years \<Rightarrow> concat (map (year_records (fst e)) years)
      | File _ \<Rightarrow> [])"

text \<open>\<^verbatim>\<open>all_records\<close> after the three loops of \<^verbatim>\<open>main\<close>.\<close>

definition all_records :: "(string \<times> node) list \<Rightarrow> flat_record list" where
  "all_records categories = concat (map category_records categories)"

section \<open>Notions used in the statements\<close>

text \<open>The rows held by a state of the grouping loop.\<close>

definition grouper_rows :: "grouper_state \<Rightarrow> RawRow list" where
  "grouper_rows st =
     (case st of (groups, current) \<Rightarrow>
        concat (map group_members groups) @
        (case current of None \<Rightarrow> [] | Some (g, b) \<Rightarrow> group_members g))"

text \<open>Rows for the examples.\<close>

definition mk_row :: "nat \<Rightarrow> string \<Rightarrow> string \<Rightarrow> string \<Rightarrow> string \<Rightarrow> RawRow" where
  "mk_row i card_set number athlete seq =
     \<lparr>row_index = i, YEAR = ''2021'', BRAND = ''Panini'', PROGRAM = ''Prizm'',
      SPORT = ''Football'', CARD_SET = card_set, CARD_NUMBER = number, ATHLETE = athlete,
      SEQUENCE = seq\<rparr>"

definition example_rows :: "RawRow list" where
  "example_rows = [mk_row 0 ''Topps'' ''1'' ''A'' '''', mk_row 1 ''Topps Gold'' ''1'' ''A'' ''10'',
                   mk_row 2 ''Chrome'' ''7'' ''B'' '''']"

text \<open>
  What holds of every group the grouping loop has built: it has a base row, its
  \<open>base_set\<close> is the trimmed set name of its first row, and trimming \<open>base_set\<close> again
  changes nothing.
\<close>

definition group_ok :: "group \<Rightarrow> bool" where
  "group_ok g \<longleftrightarrow> base_rows g \<noteq> [] \<and>
                base_set g = normalize_text (CARD_SET (hd (base_rows g))) \<and>
                normalize_text (base_set g) = base_set g"

definition grouper_inv :: "grouper_state \<Rightarrow> bool" where
  "grouper_inv st =
     (case st of (groups, current) \<Rightarrow>
        list_all group_ok groups \<and>
        (case current of None \<Rightarrow> groups = [] | Some (g, b) \<Rightarrow> b = base_set g \<and> group_ok g))"


text \<open>The key of a card in the duplicate removal.\<close>

definition card_key :: "card_obj \<Rightarrow> string \<times> string" where
  "card_key c = (card_number c, card_name c)"

text \<open>The cards that survive the duplicate removal when the keys in \<open>seen\<close> were met before.\<close>

fun keep_first :: "card_obj list \<Rightarrow> (string \<times> string) set \<Rightarrow> card_obj list" where
  "keep_first [] seen = []"
| "keep_first (c # cs) seen =
     (if card_key c \<in> seen then keep_first cs seen
      else c # keep_first cs (insert (card_key c) seen))"

definition plain_card :: "nat \<Rightarrow> string \<Rightarrow> string \<Rightarrow> nat option \<Rightarrow> card_obj" where
  "plain_card uid number name' numbered =
     \<lparr>card_uniqueId = uid, card_number = number, card_name = name', card_sequence = None,
      card_parallels = None, card_attributes = None, card_numberedTo = numbered,
      card_note = None\<rparr>"

text \<open>
  Stages of \<open>process_group\<close>, named: the state after the loop over the base rows, the
  clean cards of the base rows, and the state after the parallel rows, before the
  duplicate removal.
\<close>

definition base_stage :: "nat \<Rightarrow> group \<Rightarrow> base_state" where
  "base_stage uid g =
     foldl (base_row_step (get_attributes_for_set (base_set g))) ([], {}, {}, uid) (base_rows g)"

definition base_uniform :: "nat \<Rightarrow> group \<Rightarrow> bool" where
  "base_uniform uid g = (case base_stage uid g of (cards, numbers, sequences, u) \<Rightarrow> uniform_seq sequences)"

definition base_numberedTo :: "nat \<Rightarrow> group \<Rightarrow> nat option" where
  "base_numberedTo uid g =
     (case base_stage uid g of (cards, numbers, sequences, u) \<Rightarrow>
        if uniform_seq sequences then the_elem sequences else None)"

definition clean_stage :: "nat \<Rightarrow> group \<Rightarrow> synth_state" where
  "clean_stage uid g =
     (case base_stage uid g of (cards, numbers, sequences, u) \<Rightarrow>
        \<lparr>base_cards = map (cleanup_card (uniform_seq sequences)) cards,
         base_card_numbers = numbers, set_level_parallels = [], next_uuid = u\<rparr>)"

definition parallel_stage :: "nat \<Rightarrow> group \<Rightarrow> synth_state" where
  "parallel_stage uid g =
     foldl (parallel_name_step (get_attributes_for_set (base_set g))) (clean_stage uid g)
           (parallels_by_name (parallel_rows g))"

text \<open>A world for the examples: every path reads as a frame with the header and no row.\<close>

definition empty_world :: world where
  "empty_world =
     \<lparr>csv_files = (\<lambda>p. Inr \<lparr>columns = required_columns, rows = []\<rparr>),
      can_open = (\<lambda>p. True), uuid4 = (\<lambda>k. ''uuid''), written = Map.empty, stdout = []\<rparr>"

text \<open>
  Reading a loaded document: the value of a key of an object with a default, the items
  of an array, and the documents the flattener reads without an exception in its loops
  (an object whose \<^verbatim>\<open>sets\<close> is an array of objects, each with an array of objects as
  \<^verbatim>\<open>cards\<close>; a missing key counts as the empty array).
\<close>

definition field :: "json \<Rightarrow> string \<Rightarrow> json \<Rightarrow> json" where
  "field x key default' =
     (case x of JObj kvs \<Rightarrow> (case map_of kvs key of None \<Rightarrow> default' | Some v \<Rightarrow> v)
              | _ \<Rightarrow> default')"

definition arr_items :: "json \<Rightarrow> json list" where
  "arr_items x = (case x of JArr xs \<Rightarrow> xs | _ \<Rightarrow> [])"

definition is_obj :: "json \<Rightarrow> bool" where
  "is_obj x = (case x of JObj _ \<Rightarrow> True | _ \<Rightarrow> False)"

definition is_arr :: "json \<Rightarrow> bool" where
  "is_arr x = (case x of JArr _ \<Rightarrow> True | _ \<Rightarrow> False)"

definition well_formed_set :: "json \<Rightarrow> bool" where
  "well_formed_set s \<longleftrightarrow> is_obj s \<and> is_arr (field s ''cards'' (JArr [])) \<and>
                        list_all is_obj (arr_items (field s ''cards'' (JArr [])))"

definition well_formed_doc :: "json \<Rightarrow> bool" where
  "well_formed_doc d \<longleftrightarrow> is_obj d \<and> is_arr (field d ''sets'' (JArr [])) \<and>
                        list_all well_formed_set (arr_items (field d ''sets'' (JArr [])))"

text \<open>The record of a card \<open>c\<close> of a set \<open>s\<close> of a document \<open>d\<close>.\<close>

definition record_of :: "string \<Rightarrow> string \<Rightarrow> string \<Rightarrow> json \<Rightarrow> json \<Rightarrow> json \<Rightarrow> flat_record" where
  "record_of category' year' release' d s c =
     \<lparr>category = category', year = year', release = release',
      source = field d ''name'' (JStr []),
      set_field = field s ''name'' (JStr []),
      card_number_field = field c ''number'' (JStr []),
      card_name_field = field c ''name'' (JStr []),
      attributes_field = field c ''attributes'' (JArr []),
      note_field = field c ''note'' (JStr [])\<rparr>"

definition example_doc :: json where
  "example_doc =
     JObj [(''name'', JStr ''2020-21 Panini Prizm Basketball''),
           (''sets'', JArr [JObj [(''name'', JStr ''Base''),
                                  (''cards'', JArr [JObj [(''number'', JStr ''1''),
                                                          (''name'', JStr ''A'')]])]])]"

text \<open>
  The card the loop over the base rows builds for a row, and the same card after the
  clean-up loop; \<open>attrs\<close> are the attributes of the set, \<open>uid\<close> the identifier drawn.
\<close>

definition base_card :: "string list \<Rightarrow> nat \<Rightarrow> RawRow \<Rightarrow> card_obj" where
  "base_card attrs uid row =
     \<lparr>card_uniqueId = uid, card_number = normalize_card_number (CARD_NUMBER row),
      card_name = normalize_text (ATHLETE row), card_sequence = Some (seq_value_of row),
      card_parallels = Some [],
      card_attributes = (if attrs \<noteq> [] then Some attrs else None),
      card_numberedTo = None, card_note = None\<rparr>"

definition clean_card :: "string list \<Rightarrow> bool \<Rightarrow> nat \<Rightarrow> RawRow \<Rightarrow> card_obj" where
  "clean_card attrs uniform uid row =
     \<lparr>card_uniqueId = uid, card_number = normalize_card_number (CARD_NUMBER row),
      card_name = normalize_text (ATHLETE row), card_sequence = None,
      card_parallels = None,
      card_attributes = (if attrs \<noteq> [] then Some attrs else None),
      card_numberedTo = (if uniform then None else seq_value_of row), card_note = None\<rparr>"

fun cards_from :: "(nat \<Rightarrow> RawRow \<Rightarrow> card_obj) \<Rightarrow> nat \<Rightarrow> RawRow list \<Rightarrow> card_obj list" where
  "cards_from f uid [] = []"
| "cards_from f uid (row # rs) = f uid row # cards_from f (Suc uid) rs"

text \<open>The sequence values present in a list of rows, as the loops collect them.\<close>

definition present_sequences :: "RawRow list \<Rightarrow> nat option set" where
  "present_sequences rs = seq_value_of ` set rs - {None}"

text \<open>The fields of a JSON object.\<close>

definition obj_fields :: "json \<Rightarrow> (string \<times> json) list" where
  "obj_fields x = (case x of JObj kvs \<Rightarrow> kvs | _ \<Rightarrow> [])"

text \<open>Groups for the examples.\<close>

definition placeholder_group :: group where
  "placeholder_group =
     \<lparr>base_set = ''Topps'', base_rows = [mk_row 0 ''Topps'' ''1'' ''A'' ''10''],
      parallel_rows = [(mk_row 1 ''Topps Gold'' ''2'' ''B'' ''5'', ''Gold'')]\<rparr>"

definition mixed_group :: group where
  "mixed_group =
     \<lparr>base_set = ''Topps'',
      base_rows = [mk_row 0 ''Topps'' ''1'' ''A'' ''10'', mk_row 1 ''Topps'' ''2'' ''B'' ''25''],
      parallel_rows = []\<rparr>"

definition partial_group :: group where
  "partial_group =
     \<lparr>base_set = ''Topps'',
      base_rows = [mk_row 0 ''Topps'' ''1'' ''A'' ''10'', mk_row 1 ''Topps'' ''2'' ''B'' ''''],
      parallel_rows = []\<rparr>"

definition gold_first_group :: group where
  "gold_first_group =
     \<lparr>base_set = ''Topps'', base_rows = [mk_row 0 ''Topps'' ''1'' ''A'' ''''],
      parallel_rows = [(mk_row 1 ''Topps Gold'' ''2'' ''B'' ''5'', ''Gold''),
                       (mk_row 2 ''Topps Silver'' ''1'' ''A'' ''50'', ''Silver'')]\<rparr>"

definition silver_first_group :: group where
  "silver_first_group =
     \<lparr>base_set = ''Topps'', base_rows = [mk_row 0 ''Topps'' ''1'' ''A'' ''''],
      parallel_rows = [(mk_row 2 ''Topps Silver'' ''1'' ''A'' ''50'', ''Silver''),
                       (mk_row 1 ''Topps Gold'' ''2'' ''B'' ''5'', ''Gold'')]\<rparr>"

definition one_row_frame :: frame where
  "one_row_frame = \<lparr>columns = required_columns, rows = [mk_row 0 ''Topps'' ''1'' ''A'' '''']\<rparr>"

text \<open>What the sparse-field convention asks of a card dictionary.\<close>

definition card_sparse :: "card_obj \<Rightarrow> bool" where
  "card_sparse c \<longleftrightarrow> card_sequence c = None \<and> card_parallels c \<noteq> Some [] \<and>
                    card_attributes c \<noteq> Some [] \<and> card_note c \<noteq> Some []"

definition one_row_doc :: top_obj where
  "one_row_doc =
     \<lparr>top_schema = ''http://json-schema.org/draft-07/schema#'',
      top_name = ''2021 Panini Prizm Football'', top_version = ''1.0'', top_uniqueId = 2,
      top_attributes = [], top_notes = [],
      top_sets = [\<lparr>set_uniqueId = 1, set_name = ''Topps'',
                    set_cards = [plain_card 0 ''1'' ''A'' None],
                    set_parallels = [], set_variations = [], set_numberedTo = None\<rparr>]\<rparr>"

text \<open>The rows of a parallel name, in their order in \<open>parallel_rows\<close>.\<close>

definition rows_of_name :: "(RawRow \<times> string) list \<Rightarrow> string \<Rightarrow> RawRow list" where
  "rows_of_name prs nm = map fst (filter (\<lambda>pr. snd pr = nm) prs)"

text \<open>
  The set \<open>base_card_numbers\<close> of a state holds the numbers of the cards built so far.
\<close>

definition numbers_ok :: "synth_state \<Rightarrow> bool" where
  "numbers_ok st \<longleftrightarrow> base_card_numbers st = card_number ` set (base_cards st)"

text \<open>The set-level parallel recorded for a name with the rows \<open>rs\<close>.\<close>

definition set_level_parallel :: "string \<Rightarrow> RawRow list \<Rightarrow> parallel_obj" where
  "set_level_parallel nm rs =
     \<lparr>parallel_name = nm,
      parallel_numberedTo =
        (if uniform_seq (present_sequences rs) then the_elem (present_sequences rs) else None)\<rparr>"

section \<open>Grouping\<close>

lemma grouper_step_rows:
  "mset (grouper_rows (grouper_step st row)) = mset (grouper_rows st) + {#row#}"
proof (cases st)
  case (Pair groups current)
  show ?thesis
  proof (cases current)
    case None
    with Pair show ?thesis
      by (simp add: grouper_rows_def group_members_def new_group_def Let_def)
  next
    case (Some gb)
    obtain g b where "gb = (g, b)" by (cases gb)
    with Pair Some show ?thesis
      by (simp add: grouper_rows_def group_members_def new_group_def Let_def)
  qed
qed

lemma grouper_foldl_rows:
  "mset (grouper_rows (foldl grouper_step st rs)) = mset (grouper_rows st) + mset rs"
  by (induction rs arbitrary: st) (simp_all add: grouper_step_rows)

lemma grouper_finish_rows:
  "concat (map group_members (grouper_finish st)) = grouper_rows st"
  by (cases st) (simp add: grouper_finish_def grouper_rows_def split: option.splits prod.splits)

lemma initial_groups_mset:
  "mset (concat (map group_members (initial_groups rs))) = mset rs"
proof -
  have "mset (grouper_rows (foldl grouper_step ([], None) rs)) =
        mset (grouper_rows ([], None)) + mset rs"
    by (rule grouper_foldl_rows)
  moreover have "grouper_rows ([], None) = []"
    by (simp add: grouper_rows_def)
  ultimately show ?thesis
    by (simp add: initial_groups_def grouper_finish_rows)
qed

lemma distinct_concat_unique:
  "distinct (concat xss) \<Longrightarrow> r \<in> set (concat xss) \<Longrightarrow> \<exists>!i. i < length xss \<and> r \<in> set (xss ! i)"
proof (induction xss)
  case Nil
  then show ?case by simp
next
  case (Cons xs xss)
  show ?case
  proof (cases "r \<in> set xs")
    case True
    with Cons.prems have notin: "r \<notin> set (concat xss)" by auto
    have "\<And>i. i < length (xs # xss) \<and> r \<in> set ((xs # xss) ! i) \<Longrightarrow> i = 0"
    proof -
      fix i assume a: "i < length (xs # xss) \<and> r \<in> set ((xs # xss) ! i)"
      show "i = 0"
      proof (cases i)
        case 0 then show ?thesis .
      next
        case (Suc j)
        with a have "j < length xss" "r \<in> set (xss ! j)" by auto
        then have "r \<in> set (concat xss)" using nth_mem by fastforce
        with notin show ?thesis by simp
      qed
    qed
    with True show ?thesis by (intro ex1I[of _ 0]) auto
  next
    case False
    with Cons.prems have "distinct (concat xss)" "r \<in> set (concat xss)" by auto
    from Cons.IH[OF this] obtain j where j: "j < length xss" "r \<in> set (xss ! j)"
      and uniq: "\<And>k. k < length xss \<and> r \<in> set (xss ! k) \<Longrightarrow> k = j" by blast
    show ?thesis
    proof (intro ex1I[of _ "Suc j"])
      show "Suc j < length (xs # xss) \<and> r \<in> set ((xs # xss) ! Suc j)" using j by simp
    next
      fix i assume a: "i < length (xs # xss) \<and> r \<in> set ((xs # xss) ! i)"
      show "i = Suc j"
      proof (cases i)
        case 0 with a False show ?thesis by simp
      next
        case (Suc k)
        with a have "k < length xss \<and> r \<in> set (xss ! k)" by simp
        from uniq[OF this] Suc show ?thesis by simp
      qed
    qed
  qed
qed

text \<open>
  C7. After the grouping, the rows held by the groups (base rows and parallel rows
  together) are the input rows, each as often as in the input. When the input rows are
  pairwise different (as rows of a frame are, by their index), no row is held twice, and
  every row is held by exactly one group.
\<close>

theorem partition_completeness:
  "mset (concat (map group_members (initial_groups rs))) = mset rs \<and>
   (distinct rs \<longrightarrow>
      distinct (concat (map group_members (initial_groups rs))) \<and>
      (\<forall>r \<in> set rs. \<exists>!i. i < length (initial_groups rs) \<and>
                            r \<in> set (group_members (initial_groups rs ! i))))"
proof -
  let ?gs = "initial_groups rs"
  have m: "mset (concat (map group_members ?gs)) = mset rs"
    by (rule initial_groups_mset)
  have "distinct (concat (map group_members ?gs)) \<and>
        (\<forall>r \<in> set rs. \<exists>!i. i < length ?gs \<and> r \<in> set (group_members (?gs ! i)))"
    if d: "distinct rs"
  proof
    show dc: "distinct (concat (map group_members ?gs))"
      using m d mset_eq_imp_distinct_iff by blast
    show "\<forall>r \<in> set rs. \<exists>!i. i < length ?gs \<and> r \<in> set (group_members (?gs ! i))"
    proof
      fix r assume "r \<in> set rs"
      then have "r \<in> set (concat (map group_members ?gs))"
        using m mset_eq_setD by blast
      from distinct_concat_unique[OF dc this]
      have "\<exists>!i. i < length (map group_members ?gs) \<and> r \<in> set (map group_members ?gs ! i)" .
      then show "\<exists>!i. i < length ?gs \<and> r \<in> set (group_members (?gs ! i))"
        by (metis (no_types, lifting) length_map nth_map)
    qed
  qed
  with m show ?thesis by blast
qed

lemma example_groups:
  "initial_groups example_rows =
     [\<lparr>base_set = ''Topps'', base_rows = [mk_row 0 ''Topps'' ''1'' ''A'' ''''],
       parallel_rows = [(mk_row 1 ''Topps Gold'' ''1'' ''A'' ''10'', ''Gold'')]\<rparr>,
      \<lparr>base_set = ''Chrome'', base_rows = [mk_row 2 ''Chrome'' ''7'' ''B'' ''''],
       parallel_rows = []\<rparr>]"
  by code_simp

text \<open>Three rows, two groups: the members are the three rows again.\<close>

theorem partition_completeness_witness:
  "distinct example_rows \<and>
   mset (concat (map group_members (initial_groups example_rows))) = mset example_rows \<and>
   distinct (concat (map group_members (initial_groups example_rows))) \<and>
   concat (map group_members (initial_groups example_rows)) = example_rows"
proof -
  have d: "distinct example_rows"
    by (simp add: example_rows_def mk_row_def)
  have c: "concat (map group_members (initial_groups example_rows)) = example_rows"
    by (simp add: example_groups group_members_def) (simp add: example_rows_def)
  from d c partition_completeness[of example_rows] show ?thesis by simp
qed

subsection \<open>The steps of the grouping loop\<close>

lemma strip_prefix_of_dropWhile:
  "dropWhile P s = strip P s @ rev (takeWhile P (rev (dropWhile P s)))"
proof -
  have "rev (dropWhile P xs) @ rev (takeWhile P xs) = rev xs" for xs :: string
    by (metis rev_append takeWhile_dropWhile_id)
  from this[of "rev (dropWhile P s)"] show ?thesis
    by (simp add: strip_def)
qed

lemma strip_head: "strip P s \<noteq> [] \<Longrightarrow> \<not> P (hd (strip P s))"
proof -
  assume ne: "strip P s \<noteq> []"
  have eq: "dropWhile P s = strip P s @ rev (takeWhile P (rev (dropWhile P s)))"
    by (rule strip_prefix_of_dropWhile)
  with ne have "dropWhile P s \<noteq> []" by (metis append_is_Nil_conv)
  then have "\<not> P (hd (dropWhile P s))" by (rule hd_dropWhile)
  moreover have "hd (dropWhile P s) = hd (strip P s)"
    using eq ne by (metis hd_append2)
  ultimately show ?thesis by simp
qed

lemma dropWhile_strip: "dropWhile P (strip P s) = strip P s"
proof (cases "strip P s")
  case Nil
  then show ?thesis by simp
next
  case (Cons a as)
  then have "\<not> P a" using strip_head[of P s] by simp
  with Cons show ?thesis by simp
qed

lemma strip_idem: "strip P (strip P s) = strip P s"
proof -
  have "strip P (strip P s) = rev (dropWhile P (rev (strip P s)))"
    by (simp add: strip_def[of P "strip P s"] dropWhile_strip)
  also have "rev (strip P s) = dropWhile P (rev (dropWhile P s))"
    by (simp add: strip_def)
  also have "rev (dropWhile P (dropWhile P (rev (dropWhile P s)))) = strip P s"
    by (simp add: strip_def dropWhile_idem)
  finally show ?thesis .
qed

lemma normalize_text_idem: "normalize_text (normalize_text s) = normalize_text s"
  by (simp add: normalize_text_def strip_idem)

lemma grouper_step_inv: "grouper_inv st \<Longrightarrow> grouper_inv (grouper_step st row)"
proof (cases st)
  case (Pair groups current)
  assume inv: "grouper_inv st"
  show ?thesis
  proof (cases current)
    case None
    with Pair inv show ?thesis
      by (simp add: grouper_inv_def group_ok_def new_group_def Let_def normalize_text_idem)
  next
    case (Some gb)
    obtain g b where "gb = (g, b)" by (cases gb)
    with Pair Some inv show ?thesis
      by (simp add: grouper_inv_def group_ok_def new_group_def Let_def normalize_text_idem)
  qed
qed

lemma grouper_foldl_inv: "grouper_inv st \<Longrightarrow> grouper_inv (foldl grouper_step st rs)"
  by (induction rs arbitrary: st) (simp_all add: grouper_step_inv)

lemma grouper_reachable_inv: "grouper_inv (foldl grouper_step ([], None) rs)"
  by (rule grouper_foldl_inv) (simp add: grouper_inv_def)


text \<open>
  C4 (amended). The grouping loop takes the rows in file order. With no current group,
  a row opens one whose \<open>base_set\<close> is its trimmed set name. With a current group \<open>g\<close>
  and \<open>current_base = b\<close> (which is \<open>base_set g\<close>, the trimmed set name of the first row
  of \<open>g\<close>): a row whose trimmed set name is \<open>b\<close> is appended to \<open>base_rows\<close>; a row
  whose trimmed set name is \<open>b\<close>, a space and a rest is appended to \<open>parallel_rows\<close> with
  the rest trimmed of surrounding white space and then of surrounding spaces and
  hyphens; any other row closes \<open>g\<close> and opens a new group under its own set name, in
  particular a row whose set name contains \<open>b\<close> without being \<open>b\<close> or \<open>b\<close> and a space
  and a rest.
\<close>

theorem grouper_step_spec:
  assumes "foldl grouper_step ([], None) rs = (groups, current)"
  shows "foldl grouper_step ([], None) (rs @ [row]) = grouper_step (groups, current) row \<and>
    (current = None \<longrightarrow>
       groups = [] \<and>
       grouper_step (groups, current) row =
         ([], Some (new_group (normalize_text (CARD_SET row)) row, normalize_text (CARD_SET row)))) \<and>
    (\<forall>g b. current = Some (g, b) \<longrightarrow>
       b = base_set g \<and> base_rows g \<noteq> [] \<and>
       base_set g = normalize_text (CARD_SET (hd (base_rows g))) \<and>
       (normalize_text (CARD_SET row) = b \<longrightarrow>
          grouper_step (groups, current) row =
            (groups, Some (g\<lparr>base_rows := base_rows g @ [row]\<rparr>, b))) \<and>
       (\<forall>rest. normalize_text (CARD_SET row) = b @ '' '' @ rest \<longrightarrow>
          grouper_step (groups, current) row =
            (groups, Some (g\<lparr>parallel_rows := parallel_rows g @
                 [(row, strip (\<lambda>c. c \<in> set '' -'') (normalize_text rest))]\<rparr>, b))) \<and>
       (normalize_text (CARD_SET row) \<noteq> b \<and> \<not> prefix (b @ '' '') (normalize_text (CARD_SET row)) \<longrightarrow>
          grouper_step (groups, current) row =
            (groups @ [g],
             Some (new_group (normalize_text (CARD_SET row)) row, normalize_text (CARD_SET row)))) \<and>
       (sublist b (normalize_text (CARD_SET row)) \<and> normalize_text (CARD_SET row) \<noteq> b \<and>
        \<not> prefix (b @ '' '') (normalize_text (CARD_SET row)) \<longrightarrow>
          base_set (fst (the (snd (grouper_step (groups, current) row)))) = normalize_text (CARD_SET row) \<and>
          fst (grouper_step (groups, current) row) = groups @ [g]))"
proof -
  have inv: "grouper_inv (groups, current)"
    using grouper_reachable_inv[of rs] assms by simp
  have 1: "foldl grouper_step ([], None) (rs @ [row]) = grouper_step (groups, current) row"
    using assms by simp
  have 2: "current = None \<longrightarrow>
       groups = [] \<and>
       grouper_step (groups, current) row =
         ([], Some (new_group (normalize_text (CARD_SET row)) row, normalize_text (CARD_SET row)))"
    using inv by (auto simp: grouper_inv_def Let_def)
  have 3: "b = base_set g \<and> base_rows g \<noteq> [] \<and>
       base_set g = normalize_text (CARD_SET (hd (base_rows g)))" if "current = Some (g, b)" for g b
    using inv that by (simp add: grouper_inv_def group_ok_def)
  have 4: "grouper_step (groups, current) row =
            (groups, Some (g\<lparr>base_rows := base_rows g @ [row]\<rparr>, b))"
    if "current = Some (g, b)" "normalize_text (CARD_SET row) = b" for g b
    using that by simp
  have 5: "grouper_step (groups, current) row =
            (groups, Some (g\<lparr>parallel_rows := parallel_rows g @
                 [(row, strip (\<lambda>c. c \<in> set '' -'') (normalize_text rest))]\<rparr>, b))"
    if "current = Some (g, b)" "normalize_text (CARD_SET row) = b @ '' '' @ rest" for g b rest
    using that by (simp add: parallel_name_of_def)
  have 6: "grouper_step (groups, current) row =
            (groups @ [g],
             Some (new_group (normalize_text (CARD_SET row)) row, normalize_text (CARD_SET row)))"
    if "current = Some (g, b)" "normalize_text (CARD_SET row) \<noteq> b"
       "\<not> prefix (b @ '' '') (normalize_text (CARD_SET row))" for g b
    using that by (simp add: Let_def)
  have 7: "base_set (fst (the (snd (grouper_step (groups, current) row)))) = normalize_text (CARD_SET row) \<and>
          fst (grouper_step (groups, current) row) = groups @ [g]"
    if "current = Some (g, b)" "normalize_text (CARD_SET row) \<noteq> b"
       "\<not> prefix (b @ '' '') (normalize_text (CARD_SET row))" for g b
    using 6[OF that] by (simp add: new_group_def)
  show ?thesis
  proof (intro conjI)
    show "foldl grouper_step ([], None) (rs @ [row]) = grouper_step (groups, current) row"
      by (rule 1)
  next
    show "current = None \<longrightarrow>
       groups = [] \<and>
       grouper_step (groups, current) row =
         ([], Some (new_group (normalize_text (CARD_SET row)) row, normalize_text (CARD_SET row)))"
      by (rule 2)
  next
    show "\<forall>g b. current = Some (g, b) \<longrightarrow>
       b = base_set g \<and> base_rows g \<noteq> [] \<and>
       base_set g = normalize_text (CARD_SET (hd (base_rows g))) \<and>
       (normalize_text (CARD_SET row) = b \<longrightarrow>
          grouper_step (groups, current) row =
            (groups, Some (g\<lparr>base_rows := base_rows g @ [row]\<rparr>, b))) \<and>
       (\<forall>rest. normalize_text (CARD_SET row) = b @ '' '' @ rest \<longrightarrow>
          grouper_step (groups, current) row =
            (groups, Some (g\<lparr>parallel_rows := parallel_rows g @
                 [(row, strip (\<lambda>c. c \<in> set '' -'') (normalize_text rest))]\<rparr>, b))) \<and>
       (normalize_text (CARD_SET row) \<noteq> b \<and> \<not> prefix (b @ '' '') (normalize_text (CARD_SET row)) \<longrightarrow>
          grouper_step (groups, current) row =
            (groups @ [g],
             Some (new_group (normalize_text (CARD_SET row)) row, normalize_text (CARD_SET row)))) \<and>
       (sublist b (normalize_text (CARD_SET row)) \<and> normalize_text (CARD_SET row) \<noteq> b \<and>
        \<not> prefix (b @ '' '') (normalize_text (CARD_SET row)) \<longrightarrow>
          base_set (fst (the (snd (grouper_step (groups, current) row)))) = normalize_text (CARD_SET row) \<and>
          fst (grouper_step (groups, current) row) = groups @ [g])"
    proof (intro allI impI)
      fix g b assume c: "current = Some (g, b)"
      have A: "b = base_set g" and B: "base_rows g \<noteq> []"
        and C: "base_set g = normalize_text (CARD_SET (hd (base_rows g)))"
        using 3[OF c] by simp_all
      have D: "normalize_text (CARD_SET row) = b \<longrightarrow>
          grouper_step (groups, current) row =
            (groups, Some (g\<lparr>base_rows := base_rows g @ [row]\<rparr>, b))"
        using 4[OF c] by (rule impI)
      have E: "\<forall>rest. normalize_text (CARD_SET row) = b @ '' '' @ rest \<longrightarrow>
          grouper_step (groups, current) row =
            (groups, Some (g\<lparr>parallel_rows := parallel_rows g @
                 [(row, strip (\<lambda>c. c \<in> set '' -'') (normalize_text rest))]\<rparr>, b))"
        using 5[OF c] by (intro allI impI)
      have F: "normalize_text (CARD_SET row) \<noteq> b \<and> \<not> prefix (b @ '' '') (normalize_text (CARD_SET row)) \<longrightarrow>
          grouper_step (groups, current) row =
            (groups @ [g],
             Some (new_group (normalize_text (CARD_SET row)) row, normalize_text (CARD_SET row)))"
        using 6[OF c] by (intro impI) (elim conjE)
      have G: "sublist b (normalize_text (CARD_SET row)) \<and> normalize_text (CARD_SET row) \<noteq> b \<and>
        \<not> prefix (b @ '' '') (normalize_text (CARD_SET row)) \<longrightarrow>
          base_set (fst (the (snd (grouper_step (groups, current) row)))) = normalize_text (CARD_SET row) \<and>
          fst (grouper_step (groups, current) row) = groups @ [g]"
        using 7[OF c] by (intro impI) (elim conjE)
      from A B C D E F G
      show "b = base_set g \<and> base_rows g \<noteq> [] \<and>
       base_set g = normalize_text (CARD_SET (hd (base_rows g))) \<and>
       (normalize_text (CARD_SET row) = b \<longrightarrow>
          grouper_step (groups, current) row =
            (groups, Some (g\<lparr>base_rows := base_rows g @ [row]\<rparr>, b))) \<and>
       (\<forall>rest. normalize_text (CARD_SET row) = b @ '' '' @ rest \<longrightarrow>
          grouper_step (groups, current) row =
            (groups, Some (g\<lparr>parallel_rows := parallel_rows g @
                 [(row, strip (\<lambda>c. c \<in> set '' -'') (normalize_text rest))]\<rparr>, b))) \<and>
       (normalize_text (CARD_SET row) \<noteq> b \<and> \<not> prefix (b @ '' '') (normalize_text (CARD_SET row)) \<longrightarrow>
          grouper_step (groups, current) row =
            (groups @ [g],
             Some (new_group (normalize_text (CARD_SET row)) row, normalize_text (CARD_SET row)))) \<and>
       (sublist b (normalize_text (CARD_SET row)) \<and> normalize_text (CARD_SET row) \<noteq> b \<and>
        \<not> prefix (b @ '' '') (normalize_text (CARD_SET row)) \<longrightarrow>
          base_set (fst (the (snd (grouper_step (groups, current) row)))) = normalize_text (CARD_SET row) \<and>
          fst (grouper_step (groups, current) row) = groups @ [g])"
        by (intro conjI)
    qed
  qed
qed

theorem grouper_step_spec_witness:
  "foldl grouper_step ([], None) [mk_row 0 ''Topps'' ''1'' ''A'' ''''] =
     ([], Some (new_group ''Topps'' (mk_row 0 ''Topps'' ''1'' ''A'' ''''), ''Topps'')) \<and>
   normalize_text (CARD_SET (mk_row 1 ''Topps - Gold'' ''1'' ''A'' ''10'')) = ''Topps'' @ '' '' @ ''- Gold'' \<and>
   grouper_step ([], Some (new_group ''Topps'' (mk_row 0 ''Topps'' ''1'' ''A'' ''''), ''Topps''))
       (mk_row 1 ''Topps - Gold'' ''1'' ''A'' ''10'') =
     ([], Some (\<lparr>base_set = ''Topps'', base_rows = [mk_row 0 ''Topps'' ''1'' ''A'' ''''],
                 parallel_rows = [(mk_row 1 ''Topps - Gold'' ''1'' ''A'' ''10'', ''Gold'')]\<rparr>, ''Topps''))"
proof -
  let ?row = "mk_row 1 ''Topps - Gold'' ''1'' ''A'' ''10''"
  have a: "foldl grouper_step ([], None) [mk_row 0 ''Topps'' ''1'' ''A'' ''''] =
     ([], Some (new_group ''Topps'' (mk_row 0 ''Topps'' ''1'' ''A'' ''''), ''Topps''))"
    by (simp add: mk_row_def normalize_text_def strip_def isspace_def Let_def)
  have b: "normalize_text (CARD_SET ?row) = ''Topps'' @ '' '' @ ''- Gold''"
    by (simp add: mk_row_def normalize_text_def strip_def isspace_def)
  have c: "strip (\<lambda>c. c \<in> set '' -'') (normalize_text ''- Gold'') = ''Gold''"
    by (simp add: normalize_text_def strip_def isspace_def)
  note t = grouper_step_spec[OF a, of ?row, THEN conjunct2, THEN conjunct2, THEN spec, THEN spec,
      THEN mp, OF refl]
  note u = t[THEN conjunct2, THEN conjunct2, THEN conjunct2, THEN conjunct2, THEN conjunct1,
      rule_format, OF b]
  have "grouper_step ([], Some (new_group ''Topps'' (mk_row 0 ''Topps'' ''1'' ''A'' ''''), ''Topps'')) ?row =
     ([], Some (\<lparr>base_set = ''Topps'', base_rows = [mk_row 0 ''Topps'' ''1'' ''A'' ''''],
                 parallel_rows = [(?row, ''Gold'')]\<rparr>, ''Topps''))"
    unfolding u c by (simp add: new_group_def)
  with a b show ?thesis by blast
qed

lemma tab_row_set: "normalize_text (CARD_SET (mk_row 1 (''Topps '' @ [CHR 0x09] @ ''Gold'') ''1'' ''A'' ''10'')) = ''Topps'' @ '' '' @ ([CHR 0x09] @ ''Gold'')"
    by (simp add: mk_row_def normalize_text_def strip_def isspace_def)

lemma tab_row_name: "parallel_name_of ''Topps'' (''Topps'' @ '' '' @ ([CHR 0x09] @ ''Gold'')) = ''Gold''"
  by (simp add: normalize_text_def strip_def isspace_def parallel_name_of_def)

lemma tab_row_strip: "strip (\<lambda>c. c \<in> set '' -'') ([CHR 0x09] @ ''Gold'') = [CHR 0x09] @ ''Gold''"
  by (simp add: strip_def)

lemma grouper_step_parallel:
  "normalize_text (CARD_SET row) = b @ '' '' @ rest \<Longrightarrow>
   grouper_step (groups, Some (g, b)) row =
     (groups, Some (g\<lparr>parallel_rows := parallel_rows g @
                      [(row, parallel_name_of b (b @ '' '' @ rest))]\<rparr>, b))"
  by simp

text \<open>
  The parallel name is not always the rest trimmed of spaces and hyphens only: after
  \<^verbatim>\<open>Topps\<close>, the set name \<^verbatim>\<open>Topps\<close>, space, tab, \<^verbatim>\<open>Gold\<close> gives the name \<^verbatim>\<open>Gold\<close>, the tab
  removed by \<^verbatim>\<open>normalize_text\<close>.
\<close>

theorem parallel_name_counterexample:
  "\<not> (\<forall>groups g b row rest.
        normalize_text (CARD_SET row) = b @ '' '' @ rest \<longrightarrow>
        grouper_step (groups, Some (g, b)) row =
          (groups, Some (g\<lparr>parallel_rows := parallel_rows g @
               [(row, strip (\<lambda>c. c \<in> set '' -'') rest)]\<rparr>, b)))"
proof
  let ?row = "mk_row 1 (''Topps '' @ [CHR 0x09] @ ''Gold'') ''1'' ''A'' ''10''"
  let ?g = "new_group ''Topps'' (mk_row 0 ''Topps'' ''1'' ''A'' '''')"
  assume H: "\<forall>groups g b row rest.
        normalize_text (CARD_SET row) = b @ '' '' @ rest \<longrightarrow>
        grouper_step (groups, Some (g, b)) row =
          (groups, Some (g\<lparr>parallel_rows := parallel_rows g @
               [(row, strip (\<lambda>c. c \<in> set '' -'') rest)]\<rparr>, b))"
  have claimed: "grouper_step ([], Some (?g, ''Topps'')) ?row =
          ([], Some (?g\<lparr>parallel_rows := parallel_rows ?g @
               [(?row, strip (\<lambda>c. c \<in> set '' -'') ([CHR 0x09] @ ''Gold''))]\<rparr>, ''Topps''))"
    by (rule H[rule_format, OF tab_row_set])
  have actual: "grouper_step ([], Some (?g, ''Topps'')) ?row =
          ([], Some (?g\<lparr>parallel_rows := parallel_rows ?g @
               [(?row, parallel_name_of ''Topps'' (''Topps'' @ '' '' @ ([CHR 0x09] @ ''Gold'')))]\<rparr>, ''Topps''))"
    by (rule grouper_step_parallel[OF tab_row_set])
  from claimed[unfolded actual] show False
    by (simp add: new_group_def parallel_name_of_def normalize_text_def strip_def isspace_def)
qed

section \<open>Merging\<close>








section \<open>The stages of \<open>process_group\<close>\<close>

lemma process_group_stages:
  "process_group uid g =
     (\<lparr>set_uniqueId = next_uuid (parallel_stage uid g), set_name = base_set g,
       set_cards = fst (remove_duplicates (base_set g) (base_cards (parallel_stage uid g))),
       set_parallels = set_level_parallels (parallel_stage uid g),
       set_variations = [],
       set_numberedTo = base_numberedTo uid g\<rparr>,
      snd (remove_duplicates (base_set g) (base_cards (parallel_stage uid g))),
      Suc (next_uuid (parallel_stage uid g)))"
proof -
  obtain cards numbers sequences u
    where b: "foldl (base_row_step (get_attributes_for_set (base_set g))) ([], {}, {}, uid) (base_rows g) =
              (cards, numbers, sequences, u)"
    by (metis prod_cases4)
  then have bs: "base_stage uid g = (cards, numbers, sequences, u)"
    by (simp add: base_stage_def)
  obtain uc pr where r: "remove_duplicates (base_set g) (base_cards (parallel_stage uid g)) = (uc, pr)"
    by (cases "remove_duplicates (base_set g) (base_cards (parallel_stage uid g))")
  from r have r': "remove_duplicates (base_set g)
      (base_cards (foldl (parallel_name_step (get_attributes_for_set (base_set g)))
         \<lparr>base_cards = map (cleanup_card (uniform_seq sequences)) cards,
          base_card_numbers = numbers, set_level_parallels = [], next_uuid = u\<rparr>
         (parallels_by_name (parallel_rows g)))) = (uc, pr)"
    by (simp add: parallel_stage_def clean_stage_def bs)
  show ?thesis
    unfolding process_group_def Let_def b prod.case r'
    by (simp add: r' parallel_stage_def clean_stage_def bs base_numberedTo_def)
qed


section \<open>Duplicate removal\<close>

lemma dedup_foldl:
  "foldl dedup_step (u, seen, d) cards =
     (u @ keep_first cards seen, seen \<union> card_key ` set cards,
      d \<or> \<not> (distinct (map card_key cards) \<and> card_key ` set cards \<inter> seen = {}))"
proof (induction cards arbitrary: u seen d)
  case Nil
  then show ?case by simp
next
  case (Cons c cs)
  show ?case
  proof (cases "card_key c \<in> seen")
    case True
    then have "foldl dedup_step (u, seen, d) (c # cs) = foldl dedup_step (u, seen, True) cs"
      by (simp add: dedup_step_def card_key_def)
    with True show ?thesis
      by (auto simp: Cons.IH)
  next
    case False
    then have "foldl dedup_step (u, seen, d) (c # cs) =
               foldl dedup_step (u @ [c], insert (card_key c) seen, d) cs"
      by (simp add: dedup_step_def card_key_def)
    with False show ?thesis
      by (auto simp: Cons.IH)
  qed
qed

lemma keep_first_keys:
  "card_key ` set (keep_first cards seen) = card_key ` set cards - seen"
  by (induction cards arbitrary: seen) auto

lemma keep_first_distinct: "distinct (map card_key (keep_first cards seen))"
proof (induction cards arbitrary: seen)
  case Nil
  then show ?case by simp
next
  case (Cons c cs)
  have "card_key c \<notin> card_key ` set (keep_first cs (insert (card_key c) seen))"
    by (simp add: keep_first_keys)
  with Cons show ?case by simp
qed

lemma keep_first_id:
  "distinct (map card_key cards) \<Longrightarrow> card_key ` set cards \<inter> seen = {} \<Longrightarrow>
   keep_first cards seen = cards"
proof (induction cards arbitrary: seen)
  case Nil
  then show ?case by simp
next
  case (Cons c cs)
  from Cons.prems have a: "card_key c \<notin> seen" by auto
  from Cons.prems have "distinct (map card_key cs)"
    and "card_key ` set cs \<inter> insert (card_key c) seen = {}" by auto
  from Cons.IH[OF this] a show ?case by simp
qed

lemma keep_first_insert_seen:
  "k \<in> seen \<Longrightarrow> keep_first cards (insert k seen) = keep_first cards seen"
  by (simp add: insert_absorb)

lemma keep_first_index:
  "keep_first cards seen =
     map ((!) cards)
       (filter (\<lambda>i. card_key (cards ! i) \<notin> seen \<union> card_key ` set (take i cards)) [0..<length cards])"
proof (induction cards arbitrary: seen)
  case Nil
  then show ?case by simp
next
  case (Cons c cs)
  let ?P = "\<lambda>i. card_key ((c # cs) ! i) \<notin> seen \<union> card_key ` set (take i (c # cs))"
  have upt: "[0..<length (c # cs)] = 0 # map Suc [0..<length cs]"
    by (simp add: upt_conv_Cons map_Suc_upt del: upt_Suc)
  have tl: "map ((!) (c # cs)) (filter ?P (map Suc [0..<length cs])) =
            keep_first cs (insert (card_key c) seen)"
  proof -
    have "filter ?P (map Suc [0..<length cs]) =
          map Suc (filter (\<lambda>i. card_key (cs ! i) \<notin> insert (card_key c) seen \<union> card_key ` set (take i cs))
                          [0..<length cs])"
      by (simp add: filter_map comp_def conj_ac)
    then show ?thesis
      by (simp add: Cons.IH[of "insert (card_key c) seen"] comp_def)
  qed
  show ?case
  proof (cases "card_key c \<in> seen")
    case True
    then have "keep_first (c # cs) seen = keep_first cs (insert (card_key c) seen)"
      by (simp add: insert_absorb)
    moreover from True have "\<not> ?P 0" by simp
    ultimately show ?thesis
      unfolding upt using tl by simp
  next
    case False
    then have "keep_first (c # cs) seen = c # keep_first cs (insert (card_key c) seen)"
      by simp
    moreover from False have "?P 0" by simp
    ultimately show ?thesis
      unfolding upt using tl by simp
  qed
qed

lemma remove_duplicates_eq:
  "remove_duplicates bs cards =
     (keep_first cards {}, if distinct (map card_key cards) then [] else [duplicate_warning bs])"
  by (simp add: remove_duplicates_def dedup_foldl)

lemma sublist_duplicate_warning: "sublist bs (duplicate_warning bs)"
  unfolding duplicate_warning_def sublist_def by (metis append.assoc)

text \<open>
  C6. The duplicate removal has no step that can raise: for every list of cards it
  returns cards and lines, with or without duplicates. Of the cards it is given it
  keeps, in order, exactly those whose (number, name) key does not occur earlier in the
  list; the keys of
  the kept cards are pairwise different and are all the keys of the list. When a key
  occurs twice, one line is printed, the warning, which contains the name of the set;
  when no key occurs twice nothing is printed and the list is unchanged. Run again on
  its own result, the removal returns that result and prints nothing. The cards of the
  set that \<open>process_group\<close> returns are the result of the removal on the cards built
  for the group, under the group's \<open>base_set\<close>, and the lines \<open>process_group\<close> prints are
  the lines of the removal.
\<close>

theorem remove_duplicates_spec:
  "fst (remove_duplicates bs cards) =
     map ((!) cards)
       (filter (\<lambda>i. card_key (cards ! i) \<notin> card_key ` set (take i cards)) [0..<length cards]) \<and>
   distinct (map card_key (fst (remove_duplicates bs cards))) \<and>
   card_key ` set (fst (remove_duplicates bs cards)) = card_key ` set cards \<and>
   (\<not> distinct (map card_key cards) \<longrightarrow>
      snd (remove_duplicates bs cards) = [duplicate_warning bs] \<and> sublist bs (duplicate_warning bs)) \<and>
   (distinct (map card_key cards) \<longrightarrow> remove_duplicates bs cards = (cards, [])) \<and>
   remove_duplicates bs (fst (remove_duplicates bs cards)) = (fst (remove_duplicates bs cards), []) \<and>
   set_cards (fst (process_group uid g)) =
     fst (remove_duplicates (base_set g) (base_cards (parallel_stage uid g))) \<and>
   fst (snd (process_group uid g)) =
     snd (remove_duplicates (base_set g) (base_cards (parallel_stage uid g))) \<and>
   set_name (fst (process_group uid g)) = base_set g"
proof (intro conjI impI)
  show "fst (remove_duplicates bs cards) =
     map ((!) cards)
       (filter (\<lambda>i. card_key (cards ! i) \<notin> card_key ` set (take i cards)) [0..<length cards])"
    using keep_first_index[of cards "{}"] by (simp add: remove_duplicates_eq)
  show "distinct (map card_key (fst (remove_duplicates bs cards)))"
    by (simp add: remove_duplicates_eq keep_first_distinct)
  show "card_key ` set (fst (remove_duplicates bs cards)) = card_key ` set cards"
    by (simp add: remove_duplicates_eq keep_first_keys)
  show "snd (remove_duplicates bs cards) = [duplicate_warning bs]"
    if "\<not> distinct (map card_key cards)"
    using that by (simp add: remove_duplicates_eq)
  show "sublist bs (duplicate_warning bs)"
    by (rule sublist_duplicate_warning)
  show "remove_duplicates bs cards = (cards, [])" if "distinct (map card_key cards)"
    using that by (simp add: remove_duplicates_eq keep_first_id)
  show "remove_duplicates bs (fst (remove_duplicates bs cards)) = (fst (remove_duplicates bs cards), [])"
    by (simp add: remove_duplicates_eq keep_first_distinct keep_first_id)
  show "set_cards (fst (process_group uid g)) =
     fst (remove_duplicates (base_set g) (base_cards (parallel_stage uid g)))"
    by (simp add: process_group_stages)
  show "fst (snd (process_group uid g)) =
     snd (remove_duplicates (base_set g) (base_cards (parallel_stage uid g)))"
    by (simp add: process_group_stages)
  show "set_name (fst (process_group uid g)) = base_set g"
    by (simp add: process_group_stages)
qed

theorem remove_duplicates_spec_witness:
  "\<not> distinct (map card_key [plain_card 0 ''5'' ''A'' None, plain_card 1 ''6'' ''B'' None,
                                plain_card 2 ''5'' ''A'' (Some 10)]) \<and>
   remove_duplicates ''Topps'' [plain_card 0 ''5'' ''A'' None, plain_card 1 ''6'' ''B'' None,
                                plain_card 2 ''5'' ''A'' (Some 10)] =
     ([plain_card 0 ''5'' ''A'' None, plain_card 1 ''6'' ''B'' None], [duplicate_warning ''Topps''])"
proof -
  let ?cards = "[plain_card 0 ''5'' ''A'' None, plain_card 1 ''6'' ''B'' None,
                 plain_card 2 ''5'' ''A'' (Some 10)]"
  have d: "\<not> distinct (map card_key ?cards)"
    by (simp add: card_key_def plain_card_def)
  have f: "fst (remove_duplicates ''Topps'' ?cards) =
           [plain_card 0 ''5'' ''A'' None, plain_card 1 ''6'' ''B'' None]"
    by (simp add: remove_duplicates_def dedup_step_def plain_card_def)
  note t = remove_duplicates_spec[of "''Topps''" ?cards, THEN conjunct2, THEN conjunct2,
      THEN conjunct2, THEN conjunct1, rule_format, OF d, THEN conjunct1]
  from d f t show ?thesis
    by (simp add: prod_eq_iff)
qed

section \<open>The run as a whole\<close>

lemma process_csv_no_rows:
  "rows df = [] \<Longrightarrow> process_csv_with_pandas (Inr df) = Inl KeyError"
  by (simp add: process_csv_with_pandas_def)

text \<open>
  C8. When the script is called with an input path and an output path and the input
  reads as a frame without rows, the run ends with the exception \<^verbatim>\<open>KeyError\<close> and the
  world is unchanged: no file is written. Whenever a run ends with an exception, the
  files written are those written before the run. A run that ends normally has written
  the whole document to the output path.
\<close>

theorem script_main_failure:
  "(length argv = 3 \<and> (\<exists>df. csv_files w (argv ! 1) = Inr df \<and> rows df = []) \<longrightarrow>
      script_main argv w = (w, Inl KeyError)) \<and>
   (\<forall>e. snd (script_main argv w) = Inl e \<longrightarrow> written (fst (script_main argv w)) = written w) \<and>
   (snd (script_main argv w) = Inr () \<longrightarrow>
      (\<exists>doc printed. process_csv_with_pandas (csv_files w (argv ! 1)) = Inr (doc, printed) \<and>
         written (fst (script_main argv w)) = (written w)(argv ! 2 \<mapsto> top_json (uuid4 w) doc)))"
proof (intro conjI allI impI)
  assume "length argv = 3 \<and> (\<exists>df. csv_files w (argv ! 1) = Inr df \<and> rows df = [])"
  then show "script_main argv w = (w, Inl KeyError)"
    by (auto simp: script_main_def process_csv_no_rows)
next
  fix e assume "snd (script_main argv w) = Inl e"
  then show "written (fst (script_main argv w)) = written w"
    by (auto simp: script_main_def Let_def split: if_splits sum.splits prod.splits)
next
  assume "snd (script_main argv w) = Inr ()"
  then show "\<exists>doc printed. process_csv_with_pandas (csv_files w (argv ! 1)) = Inr (doc, printed) \<and>
         written (fst (script_main argv w)) = (written w)(argv ! 2 \<mapsto> top_json (uuid4 w) doc)"
    by (auto simp: script_main_def Let_def split: if_splits sum.splits prod.splits)
qed

theorem script_main_failure_witness:
  "length [''script.py'', ''in.csv'', ''out.json''] = 3 \<and>
   csv_files empty_world ([''script.py'', ''in.csv'', ''out.json''] ! 1) =
     Inr \<lparr>columns = required_columns, rows = []\<rparr> \<and>
   rows \<lparr>columns = required_columns, rows = []\<rparr> = [] \<and>
   script_main [''script.py'', ''in.csv'', ''out.json''] empty_world = (empty_world, Inl KeyError) \<and>
   written (fst (script_main [''script.py'', ''in.csv'', ''out.json''] empty_world)) = Map.empty"
proof -
  let ?argv = "[''script.py'', ''in.csv'', ''out.json'']"
  have h: "length ?argv = 3 \<and>
           (\<exists>df. csv_files empty_world (?argv ! 1) = Inr df \<and> rows df = [])"
    by (simp add: empty_world_def)
  note t = script_main_failure[of ?argv empty_world, THEN conjunct1, rule_format, OF h]
  have "written (fst (script_main ?argv empty_world)) = Map.empty"
    unfolding t by (simp add: empty_world_def)
  with t show ?thesis
    by (simp add: empty_world_def)
qed

section \<open>The flattener\<close>

lemma py_get_obj: "is_obj x \<Longrightarrow> py_get x key d = Inr (field x key d)"
  by (cases x) (simp_all add: is_obj_def py_get_def field_def split: option.splits)

lemma py_iter_arr: "is_arr x \<Longrightarrow> py_iter x = Inr (arr_items x)"
  by (cases x) (simp_all add: is_arr_def py_iter_def arr_items_def)

lemma collect_all_ok:
  "(\<forall>x \<in> set xs. f x = Inr (h x)) \<Longrightarrow> collect f xs = Inr (concat (map h xs))"
  by (induction xs) (simp_all add: bind_result_def)

lemma card_record_obj:
  "is_obj c \<Longrightarrow> card_record cat yr rel (field d ''name'' (JStr [])) (field s ''name'' (JStr [])) c =
                Inr (record_of cat yr rel d s c)"
  by (simp add: card_record_def py_get_obj bind_result_def record_of_def)

lemma set_records_well_formed:
  assumes "well_formed_set s"
  shows "set_records cat yr rel (field d ''name'' (JStr [])) s =
         Inr (map (record_of cat yr rel d s) (arr_items (field s ''cards'' (JArr []))))"
proof -
  let ?cards = "arr_items (field s ''cards'' (JArr []))"
  from assms have o: "is_obj s" and a: "is_arr (field s ''cards'' (JArr []))"
    and cs: "\<forall>c \<in> set ?cards. is_obj c"
    by (simp_all add: well_formed_set_def list_all_iff)
  have "collect (\<lambda>card'. bind_result
            (card_record cat yr rel (field d ''name'' (JStr [])) (field s ''name'' (JStr [])) card')
            (\<lambda>r. Inr [r])) ?cards =
        Inr (concat (map (\<lambda>c. [record_of cat yr rel d s c]) ?cards))"
    by (rule collect_all_ok) (simp add: cs card_record_obj bind_result_def)
  then show ?thesis
    by (simp add: set_records_def py_get_obj[OF o] py_iter_arr[OF a] bind_result_def concat_map_singleton)
qed

lemma flatten_well_formed:
  assumes "well_formed_doc d"
  shows "flatten_card_data cat yr rel d =
         Inr (concat (map (\<lambda>s. map (record_of cat yr rel d s) (arr_items (field s ''cards'' (JArr []))))
                          (arr_items (field d ''sets'' (JArr [])))))"
proof -
  let ?sets = "arr_items (field d ''sets'' (JArr []))"
  from assms have o: "is_obj d" and a: "is_arr (field d ''sets'' (JArr []))"
    and ss: "\<forall>s \<in> set ?sets. well_formed_set s"
    by (simp_all add: well_formed_doc_def list_all_iff)
  have "collect (set_records cat yr rel (field d ''name'' (JStr []))) ?sets =
        Inr (concat (map (\<lambda>s. map (record_of cat yr rel d s) (arr_items (field s ''cards'' (JArr [])))) ?sets))"
    by (rule collect_all_ok) (simp add: ss set_records_well_formed)
  then show ?thesis
    by (simp add: flatten_card_data_def py_get_obj[OF o] py_iter_arr[OF a] bind_result_def)
qed

lemma collect_all_records:
  "(\<And>x ys. f x = Inr ys \<Longrightarrow> \<forall>r \<in> set ys. P r) \<Longrightarrow> collect f xs = Inr zs \<Longrightarrow> \<forall>r \<in> set zs. P r"
proof (induction xs arbitrary: zs)
  case Nil
  then show ?case by simp
next
  case (Cons x xs)
  from Cons.prems(2) obtain ys ws where y: "f x = Inr ys" and w: "collect f xs = Inr ws"
    and z: "zs = ys @ ws"
    by (auto simp: bind_result_def split: sum.splits)
  from Cons.prems(1)[OF y] Cons.IH[OF Cons.prems(1) w] z show ?case by auto
qed

lemma card_record_meta:
  "card_record cat yr rel src sn c = Inr r \<Longrightarrow> category r = cat \<and> year r = yr \<and> release r = rel"
  by (auto simp: card_record_def bind_result_def split: sum.splits)

lemma set_records_meta:
  "set_records cat yr rel src s = Inr ys \<Longrightarrow>
   \<forall>r \<in> set ys. category r = cat \<and> year r = yr \<and> release r = rel"
proof -
  assume a: "set_records cat yr rel src s = Inr ys"
  then obtain sn cards where
    c: "collect (\<lambda>card'. bind_result (card_record cat yr rel src sn card') (\<lambda>r. Inr [r])) cards = Inr ys"
    by (auto simp: set_records_def bind_result_def split: sum.splits)
  show ?thesis
  proof (rule collect_all_records[OF _ c])
    fix x zs
    assume "bind_result (card_record cat yr rel src sn x) (\<lambda>r. Inr [r]) = Inr zs"
    then show "\<forall>r \<in> set zs. category r = cat \<and> year r = yr \<and> release r = rel"
      by (auto simp: bind_result_def split: sum.splits dest: card_record_meta)
  qed
qed

lemma flatten_meta:
  "flatten_card_data cat yr rel d = Inr ys \<Longrightarrow>
   \<forall>r \<in> set ys. category r = cat \<and> year r = yr \<and> release r = rel"
proof -
  assume a: "flatten_card_data cat yr rel d = Inr ys"
  then obtain src sets where c: "collect (set_records cat yr rel src) sets = Inr ys"
    by (auto simp: flatten_card_data_def bind_result_def split: sum.splits)
  show ?thesis
    by (rule collect_all_records[OF _ c]) (rule set_records_meta)
qed

lemma file_records_meta:
  "\<forall>r \<in> set (file_records cat yr fname n). category r = cat \<and> year r = yr \<and> release r = release_of fname"
proof (cases n)
  case (File loaded)
  show ?thesis
  proof (cases "bind_result loaded (flatten_card_data cat yr (release_of fname))")
    case (Inl e)
    with File show ?thesis by (simp add: file_records_def)
  next
    case (Inr ys)
    then obtain d where "flatten_card_data cat yr (release_of fname) d = Inr ys"
      by (auto simp: bind_result_def split: sum.splits)
    from flatten_meta[OF this] File Inr show ?thesis
      by (simp add: file_records_def)
  qed
next
  case (Dir x)
  then show ?thesis by (simp add: file_records_def)
qed


lemma rfind_json: "rfind CHR ''.'' (pre @ ''.json'') = Some (length pre)"
  by (simp add: rfind_def)

lemma stem_json: "pre \<noteq> [] \<Longrightarrow> stem (pre @ ''.json'') = pre"
  by (simp add: stem_def rfind_json)

lemma split1_hyphen:
  "CHR ''-'' \<notin> set a \<Longrightarrow> split1 CHR ''-'' (a @ CHR ''-'' # b) = [a, b]"
proof -
  assume "CHR ''-'' \<notin> set a"
  then have "\<forall>c \<in> set a. c \<noteq> CHR ''-''" by auto
  then show ?thesis
    by (simp add: split1_def takeWhile_append2 dropWhile_append2)
qed

lemma release_of_hyphen:
  "CHR ''-'' \<notin> set a \<Longrightarrow> release_of (a @ ''-'' @ b @ ''.json'') = b"
proof -
  assume a: "CHR ''-'' \<notin> set a"
  have "stem ((a @ CHR ''-'' # b) @ ''.json'') = a @ CHR ''-'' # b"
    by (rule stem_json) simp
  then have "stem (a @ ''-'' @ b @ ''.json'') = a @ CHR ''-'' # b" by simp
  then show ?thesis
    by (simp add: release_of_def split1_hyphen[OF a] Let_def)
qed

lemma release_of_plain:
  "CHR ''-'' \<notin> set a \<Longrightarrow> a \<noteq> [] \<Longrightarrow> release_of (a @ ''.json'') = a"
  by (simp add: release_of_def stem_json split1_def)

lemma file_records_in_all:
  assumes "(cname, Dir years) \<in> set cats" "(yname, Dir files) \<in> set years"
    "(fname, n) \<in> set files" "suffix ''.json'' fname"
  shows "set (file_records cname yname fname n) \<subseteq> set (all_records cats)"
proof -
  from assms(3,4) have "(fname, n) \<in> set (glob_json files)"
    by (simp add: glob_json_def)
  then have "set (file_records cname yname fname n) \<subseteq> set (year_records cname (yname, Dir files))"
    by (force simp: year_records_def)
  also from assms(2) have "\<dots> \<subseteq> set (category_records (cname, Dir years))"
    by (force simp: category_records_def)
  also from assms(1) have "\<dots> \<subseteq> set (all_records cats)"
    by (force simp: all_records_def)
  finally show ?thesis .
qed

lemma file_records_well_formed:
  "well_formed_doc d \<Longrightarrow>
   file_records cat yr fname (File (Inr d)) =
     concat (map (\<lambda>s. map (record_of cat yr (release_of fname) d s)
                          (arr_items (field s ''cards'' (JArr []))))
                 (arr_items (field d ''sets'' (JArr []))))"
  by (simp add: file_records_def bind_result_def flatten_well_formed)

text \<open>
  C9 (amended). For a file \<open>fname\<close> ending in \<^verbatim>\<open>.json\<close> in a directory \<open>yname\<close> of a
  directory \<open>cname\<close> of the tree, the records of the file are among all the records;
  each record of the file has \<open>cname\<close> as category, \<open>yname\<close> as year and, as release,
  the file name without \<^verbatim>\<open>.json\<close> and without everything up to its first hyphen (the
  whole name without \<^verbatim>\<open>.json\<close> when it has no hyphen), whatever the year is. For a
  document that is an object with an array of set objects, each with an array of card
  objects, the records are, set by set and card by card, the category, year and release
  with the document name, the set name and the card's number, name, attributes and
  note (the empty string, or the empty list for attributes, in place of a missing key).
\<close>

theorem flattener_spec:
  "((cname, Dir years) \<in> set cats \<and> (yname, Dir files) \<in> set years \<and>
    (fname, n) \<in> set files \<and> suffix ''.json'' fname \<longrightarrow>
      set (file_records cname yname fname n) \<subseteq> set (all_records cats)) \<and>
   (\<forall>r \<in> set (file_records cname yname fname n).
      category r = cname \<and> year r = yname \<and> release r = release_of fname) \<and>
   (CHR ''-'' \<notin> set a \<longrightarrow> release_of (a @ ''-'' @ b @ ''.json'') = b) \<and>
   (CHR ''-'' \<notin> set a \<and> a \<noteq> [] \<longrightarrow> release_of (a @ ''.json'') = a) \<and>
   (well_formed_doc d \<longrightarrow>
      file_records cname yname fname (File (Inr d)) =
        concat (map (\<lambda>s. map (record_of cname yname (release_of fname) d s)
                             (arr_items (field s ''cards'' (JArr []))))
                    (arr_items (field d ''sets'' (JArr [])))))"
proof (intro conjI impI)
  show "set (file_records cname yname fname n) \<subseteq> set (all_records cats)"
    if "(cname, Dir years) \<in> set cats \<and> (yname, Dir files) \<in> set years \<and>
        (fname, n) \<in> set files \<and> suffix ''.json'' fname"
    using that by (intro file_records_in_all[of cname years cats yname files]) simp_all
  show "\<forall>r \<in> set (file_records cname yname fname n).
      category r = cname \<and> year r = yname \<and> release r = release_of fname"
    by (rule file_records_meta)
  show "release_of (a @ ''-'' @ b @ ''.json'') = b" if "CHR ''-'' \<notin> set a"
    using that by (rule release_of_hyphen)
  show "release_of (a @ ''.json'') = a" if "CHR ''-'' \<notin> set a \<and> a \<noteq> []"
    using that by (simp add: release_of_plain)
  show "file_records cname yname fname (File (Inr d)) =
        concat (map (\<lambda>s. map (record_of cname yname (release_of fname) d s)
                             (arr_items (field s ''cards'' (JArr []))))
                    (arr_items (field d ''sets'' (JArr []))))" if "well_formed_doc d"
    using that by (rule file_records_well_formed)
qed

lemma example_doc_well_formed: "well_formed_doc example_doc"
  by (simp add: well_formed_doc_def well_formed_set_def example_doc_def field_def arr_items_def
      is_obj_def is_arr_def)

lemma example_doc_records:
  "concat (map (\<lambda>s. map (record_of cat yr rel example_doc s)
                             (arr_items (field s ''cards'' (JArr []))))
                    (arr_items (field example_doc ''sets'' (JArr [])))) =
   [\<lparr>category = cat, year = yr, release = rel,
     source = JStr ''2020-21 Panini Prizm Basketball'', set_field = JStr ''Base'',
     card_number_field = JStr ''1'', card_name_field = JStr ''A'',
     attributes_field = JArr [], note_field = JStr []\<rparr>]"
  by (simp add: example_doc_def field_def arr_items_def record_of_def)

theorem flattener_spec_witness:
  "CHR ''-'' \<notin> set ''2020'' \<and> well_formed_doc example_doc \<and>
   release_of (''2020'' @ ''-'' @ ''Prizm'' @ ''.json'') = ''Prizm'' \<and>
   file_records ''basketball'' ''2020'' (''2020'' @ ''-'' @ ''Prizm'' @ ''.json'') (File (Inr example_doc)) =
   [\<lparr>category = ''basketball'', year = ''2020'', release = ''Prizm'',
     source = JStr ''2020-21 Panini Prizm Basketball'', set_field = JStr ''Base'',
     card_number_field = JStr ''1'', card_name_field = JStr ''A'',
     attributes_field = JArr [], note_field = JStr []\<rparr>]"
proof -
  have h: "CHR ''-'' \<notin> set ''2020''" by simp
  note t = flattener_spec[of "''basketball''" "[]" "[]" "''2020''" "[]"
      "''2020'' @ ''-'' @ ''Prizm'' @ ''.json''" "File (Inr example_doc)" "''2020''" "''Prizm''" example_doc]
  note r = t[THEN conjunct2, THEN conjunct2, THEN conjunct1, rule_format, OF h]
  note f = t[THEN conjunct2, THEN conjunct2, THEN conjunct2, THEN conjunct2, rule_format,
      OF example_doc_well_formed]
  have "file_records ''basketball'' ''2020'' (''2020'' @ ''-'' @ ''Prizm'' @ ''.json'') (File (Inr example_doc)) =
   [\<lparr>category = ''basketball'', year = ''2020'', release = ''Prizm'',
     source = JStr ''2020-21 Panini Prizm Basketball'', set_field = JStr ''Base'',
     card_number_field = JStr ''1'', card_name_field = JStr ''A'',
     attributes_field = JArr [], note_field = JStr []\<rparr>]"
    unfolding f r by (rule example_doc_records)
  with h r example_doc_well_formed show ?thesis by blast
qed

lemma release_of_season: "release_of (''2020-21'' @ ''-'' @ ''Prizm'' @ ''.json'') = ''21-Prizm''"
  by (simp add: release_of_def stem_def rfind_def split1_def)

text \<open>
  The release is not the file name without a leading year and hyphen: in the directory
  \<^verbatim>\<open>2020-21\<close>, the file \<^verbatim>\<open>2020-21-Prizm.json\<close> gives the release \<^verbatim>\<open>21-Prizm\<close>, not \<^verbatim>\<open>Prizm\<close>.
\<close>

theorem release_year_counterexample:
  "\<not> (\<forall>cat yr rel n. \<forall>r \<in> set (file_records cat yr (yr @ ''-'' @ rel @ ''.json'') n). release r = rel)"
proof
  assume H: "\<forall>cat yr rel n. \<forall>r \<in> set (file_records cat yr (yr @ ''-'' @ rel @ ''.json'') n). release r = rel"
  let ?f = "''2020-21'' @ ''-'' @ ''Prizm'' @ ''.json''"
  have recs: "file_records ''basketball'' ''2020-21'' ?f (File (Inr example_doc)) =
     [\<lparr>category = ''basketball'', year = ''2020-21'', release = release_of ?f,
     source = JStr ''2020-21 Panini Prizm Basketball'', set_field = JStr ''Base'',
     card_number_field = JStr ''1'', card_name_field = JStr ''A'',
     attributes_field = JArr [], note_field = JStr []\<rparr>]"
    unfolding file_records_well_formed[OF example_doc_well_formed] by (rule example_doc_records)
  have "release x = ''Prizm''"
    if "x \<in> set (file_records ''basketball'' ''2020-21'' ?f (File (Inr example_doc)))" for x
    by (rule H[rule_format, OF that])
  then have "release_of ?f = ''Prizm''"
    unfolding recs by simp
  then show False
    unfolding release_of_season by simp
qed

section \<open>Base rows\<close>

lemma base_row_step_eq:
  "base_row_step attrs (cs, ns, ss, u) row =
     (cs @ [base_card attrs u row], insert (normalize_card_number (CARD_NUMBER row)) ns,
      ss \<union> present_sequences [row], Suc u)"
  by (auto simp: base_row_step_def base_card_def present_sequences_def Let_def)

lemma base_foldl:
  "foldl (base_row_step attrs) (cs, ns, ss, u) rs =
     (cs @ cards_from (base_card attrs) u rs,
      ns \<union> (\<lambda>r. normalize_card_number (CARD_NUMBER r)) ` set rs,
      ss \<union> present_sequences rs, u + length rs)"
proof (induction rs arbitrary: cs ns ss u)
  case Nil
  then show ?case by (simp add: present_sequences_def)
next
  case (Cons r rs)
  have "present_sequences [r] \<union> present_sequences rs = present_sequences (r # rs)"
    by (auto simp: present_sequences_def)
  then show ?case
    by (simp add: base_row_step_eq Cons.IH Un_assoc)
qed

lemma base_stage_eq:
  "base_stage uid g =
     (cards_from (base_card (get_attributes_for_set (base_set g))) uid (base_rows g),
      (\<lambda>r. normalize_card_number (CARD_NUMBER r)) ` set (base_rows g),
      present_sequences (base_rows g), uid + length (base_rows g))"
  by (simp add: base_stage_def base_foldl)

lemma cleanup_base_card:
  "cleanup_card uniform (base_card attrs uid row) = clean_card attrs uniform uid row"
  by (cases "seq_value_of row") (simp_all add: cleanup_card_def base_card_def clean_card_def)

lemma map_cards_from: "map h (cards_from f uid rs) = cards_from (\<lambda>u r. h (f u r)) uid rs"
  by (induction rs arbitrary: uid) simp_all

lemma clean_stage_eq:
  "clean_stage uid g =
     \<lparr>base_cards = cards_from (clean_card (get_attributes_for_set (base_set g))
                                 (uniform_seq (present_sequences (base_rows g)))) uid (base_rows g),
      base_card_numbers = (\<lambda>r. normalize_card_number (CARD_NUMBER r)) ` set (base_rows g),
      set_level_parallels = [], next_uuid = uid + length (base_rows g)\<rparr>"
  by (simp add: clean_stage_def base_stage_eq map_cards_from cleanup_base_card)

lemma cards_from_nth:
  "i < length rs \<Longrightarrow> cards_from f uid rs ! i = f (uid + i) (rs ! i)"
proof (induction rs arbitrary: uid i)
  case Nil
  then show ?case by simp
next
  case (Cons r rs)
  then show ?case by (cases i) simp_all
qed

lemma length_cards_from: "length (cards_from f uid rs) = length rs"
  by (induction rs arbitrary: uid) simp_all

lemma cards_from_set:
  "c \<in> set (cards_from f uid rs) \<Longrightarrow> \<exists>i<length rs. c = f (uid + i) (rs ! i)"
  by (metis in_set_conv_nth length_cards_from cards_from_nth)

section \<open>Uniform sequences\<close>

lemma finite_present_sequences: "finite (present_sequences rs)"
  by (simp add: present_sequences_def)

lemma uniform_seq_all:
  "rs \<noteq> [] \<Longrightarrow> \<forall>r \<in> set rs. seq_value_of r = Some V \<Longrightarrow>
   uniform_seq (present_sequences rs) \<and> the_elem (present_sequences rs) = Some V"
proof -
  assume a: "rs \<noteq> []" and b: "\<forall>r \<in> set rs. seq_value_of r = Some V"
  from a obtain r where "r \<in> set rs" by (cases rs) auto
  with b have "seq_value_of ` set rs = {Some V}" by force
  then have "present_sequences rs = {Some V}"
    by (simp add: present_sequences_def)
  then show ?thesis by (simp add: uniform_seq_def)
qed

lemma uniform_seq_none:
  "\<forall>r \<in> set rs. seq_value_of r = None \<Longrightarrow> \<not> uniform_seq (present_sequences rs)"
  by (auto simp: present_sequences_def uniform_seq_def)

lemma uniform_seq_two:
  assumes "r1 \<in> set rs" "r2 \<in> set rs" "seq_value_of r1 \<noteq> None" "seq_value_of r2 \<noteq> None"
    "seq_value_of r1 \<noteq> seq_value_of r2"
  shows "\<not> uniform_seq (present_sequences rs)"
proof
  assume "uniform_seq (present_sequences rs)"
  then have "card (present_sequences rs) = 1" by (simp add: uniform_seq_def)
  then obtain x where x: "present_sequences rs = {x}" by (auto simp: card_1_singleton_iff)
  from assms have "seq_value_of r1 \<in> present_sequences rs" "seq_value_of r2 \<in> present_sequences rs"
    by (auto simp: present_sequences_def)
  with x assms(5) show False by simp
qed

lemma base_numberedTo_eq:
  "base_numberedTo uid g =
     (if uniform_seq (present_sequences (base_rows g)) then the_elem (present_sequences (base_rows g))
      else None)"
  by (simp add: base_numberedTo_def base_stage_eq)

section \<open>Attaching a parallel to a card\<close>

lemma attach_first_none_iff:
  "attach_first n p cs = None \<longleftrightarrow> (\<forall>c \<in> set cs. card_number c \<noteq> n)"
  by (induction cs) auto

lemma attach_first_some:
  "i < length cs \<Longrightarrow> card_number (cs ! i) = n \<Longrightarrow> (\<forall>j<i. card_number (cs ! j) \<noteq> n) \<Longrightarrow>
   attach_first n p cs =
     Some (cs[i := (cs ! i)\<lparr>card_parallels :=
               Some ((case card_parallels (cs ! i) of None \<Rightarrow> [] | Some ps \<Rightarrow> ps) @ [p])\<rparr>])"
proof (induction cs arbitrary: i)
  case Nil
  then show ?case by simp
next
  case (Cons c cs)
  show ?case
  proof (cases i)
    case 0
    with Cons.prems show ?thesis by simp
  next
    case (Suc k)
    with Cons.prems have k: "k < length cs" "card_number (cs ! k) = n" by simp_all
    from Cons.prems(3) Suc have "card_number ((c # cs) ! 0) \<noteq> n" by blast
    then have c: "card_number c \<noteq> n" by simp
    have "\<forall>j<k. card_number (cs ! j) \<noteq> n"
    proof (intro allI impI)
      fix j assume "j < k"
      then have "Suc j < i" using Suc by simp
      with Cons.prems(3) have "card_number ((c # cs) ! Suc j) \<noteq> n" by blast
      then show "card_number (cs ! j) \<noteq> n" by simp
    qed
    from Cons.IH[OF k this] c Suc show ?thesis by simp
  qed
qed

lemma attach_first_preserves:
  assumes "attach_first n p cs = Some cs'"
    and "\<forall>c \<in> set cs. P c"
    and "\<And>c ps. P c \<Longrightarrow> ps \<noteq> [] \<Longrightarrow> P (c\<lparr>card_parallels := Some ps\<rparr>)"
  shows "\<forall>c \<in> set cs'. P c"
  using assms(1,2)
proof (induction cs arbitrary: cs')
  case Nil
  then show ?case by simp
next
  case (Cons c cs)
  show ?case
  proof (cases "card_number c = n")
    case True
    with Cons.prems(1) have "cs' = c\<lparr>card_parallels :=
        Some ((case card_parallels c of None \<Rightarrow> [] | Some ps \<Rightarrow> ps) @ [p])\<rparr> # cs"
      by simp
    moreover have "P (c\<lparr>card_parallels :=
        Some ((case card_parallels c of None \<Rightarrow> [] | Some ps \<Rightarrow> ps) @ [p])\<rparr>)"
      using Cons.prems(2) by (intro assms(3)) simp_all
    ultimately show ?thesis using Cons.prems(2) by simp
  next
    case False
    with Cons.prems(1) obtain ds where ds: "attach_first n p cs = Some ds" and cs': "cs' = c # ds"
      by auto
    from Cons.prems(2) have "\<forall>c \<in> set cs. P c" by simp
    from Cons.IH[OF ds this] Cons.prems(2) cs' show ?thesis by simp
  qed
qed

lemma attach_first_numbers:
  "attach_first n p cs = Some cs' \<Longrightarrow> map card_number cs' = map card_number cs"
proof (induction cs arbitrary: cs')
  case Nil
  then show ?case by simp
next
  case (Cons c cs)
  then show ?case by (cases "card_number c = n") auto
qed

section \<open>The loop over the parallel names\<close>

lemma scan_parallel_foldl:
  "foldl scan_parallel_row (ns, ss) rs =
     (ns \<union> (\<lambda>r. normalize_card_number (CARD_NUMBER r)) ` set rs, ss \<union> present_sequences rs)"
proof (induction rs arbitrary: ns ss)
  case Nil
  then show ?case by (simp add: present_sequences_def)
next
  case (Cons r rs)
  have "foldl scan_parallel_row (ns, ss) (r # rs) =
        foldl scan_parallel_row (insert (normalize_card_number (CARD_NUMBER r)) ns,
                                 ss \<union> present_sequences [r]) rs"
    by (auto simp: scan_parallel_row_def present_sequences_def Let_def)
  moreover have "ss \<union> present_sequences [r] \<union> present_sequences rs = ss \<union> present_sequences (r # rs)"
    by (auto simp: present_sequences_def)
  ultimately show ?case
    by (simp add: Cons.IH)
qed

lemma parallel_name_step_eq:
  "parallel_name_step attrs st (nm, rs) =
     (if (\<lambda>r. normalize_card_number (CARD_NUMBER r)) ` set rs = base_card_numbers st
      then st\<lparr>set_level_parallels := set_level_parallels st @
                 [\<lparr>parallel_name = nm,
                   parallel_numberedTo =
                     (if uniform_seq (present_sequences rs) then the_elem (present_sequences rs)
                      else None)\<rparr>]\<rparr>
      else foldl (attach_row attrs nm) st rs)"
  by (simp add: parallel_name_step_def scan_parallel_foldl)

lemma attach_row_preserves:
  assumes "\<forall>c \<in> set (base_cards st). P c"
    and "\<And>c ps. P c \<Longrightarrow> ps \<noteq> [] \<Longrightarrow> P (c\<lparr>card_parallels := Some ps\<rparr>)"
    and "\<And>u r p. P (new_card attrs u r p)"
  shows "\<forall>c \<in> set (base_cards (attach_row attrs nm st row)). P c"
proof (cases "attach_first (normalize_card_number (CARD_NUMBER row))
                \<lparr>parallel_name = nm, parallel_numberedTo = seq_value_of row\<rparr> (base_cards st)")
  case None
  then show ?thesis
    using assms(1,3) by (simp add: attach_row_def Let_def)
next
  case (Some cs')
  from attach_first_preserves[OF Some assms(1) assms(2)] Some show ?thesis
    by (simp add: attach_row_def Let_def)
qed

lemma attach_rows_preserve:
  assumes "\<forall>c \<in> set (base_cards st). P c"
    and "\<And>c ps. P c \<Longrightarrow> ps \<noteq> [] \<Longrightarrow> P (c\<lparr>card_parallels := Some ps\<rparr>)"
    and "\<And>u r p. P (new_card attrs u r p)"
  shows "\<forall>c \<in> set (base_cards (foldl (attach_row attrs nm) st rs)). P c"
  using assms(1)
proof (induction rs arbitrary: st)
  case Nil
  then show ?case by simp
next
  case (Cons r rs)
  have "\<forall>c \<in> set (base_cards (attach_row attrs nm st r)). P c"
    by (rule attach_row_preserves[OF Cons.prems assms(2) assms(3)])
  from Cons.IH[OF this] show ?case by simp
qed

lemma parallel_name_step_preserves:
  assumes "\<forall>c \<in> set (base_cards st). P c"
    and "\<And>c ps. P c \<Longrightarrow> ps \<noteq> [] \<Longrightarrow> P (c\<lparr>card_parallels := Some ps\<rparr>)"
    and "\<And>u r p. P (new_card attrs u r p)"
  shows "\<forall>c \<in> set (base_cards (parallel_name_step attrs st e)). P c"
proof (cases e)
  case (Pair nm rs)
  show ?thesis
    unfolding Pair parallel_name_step_eq
    using assms(1) attach_rows_preserve[OF assms(1) assms(2) assms(3), of nm rs]
    by simp
qed

lemma parallel_steps_preserve:
  assumes "\<forall>c \<in> set (base_cards st). P c"
    and "\<And>c ps. P c \<Longrightarrow> ps \<noteq> [] \<Longrightarrow> P (c\<lparr>card_parallels := Some ps\<rparr>)"
    and "\<And>u r p. P (new_card attrs u r p)"
  shows "\<forall>c \<in> set (base_cards (foldl (parallel_name_step attrs) st es)). P c"
  using assms(1)
proof (induction es arbitrary: st)
  case Nil
  then show ?case by simp
next
  case (Cons e es)
  have "\<forall>c \<in> set (base_cards (parallel_name_step attrs st e)). P c"
    by (rule parallel_name_step_preserves[OF Cons.prems assms(2) assms(3)])
  from Cons.IH[OF this] show ?case by simp
qed

lemma keep_first_subset: "set (keep_first cs seen) \<subseteq> set cs"
  by (induction cs arbitrary: seen) auto

text \<open>
  A property of cards that holds of the clean cards of the base rows and of every new
  card, and that adding parallels to a card does not change, holds of every card of the
  set.
\<close>

lemma set_cards_induct:
  assumes "\<And>i. i < length (base_rows g) \<Longrightarrow>
             P (clean_card (get_attributes_for_set (base_set g))
                   (uniform_seq (present_sequences (base_rows g))) (uid + i) (base_rows g ! i))"
    and "\<And>c ps. P c \<Longrightarrow> ps \<noteq> [] \<Longrightarrow> P (c\<lparr>card_parallels := Some ps\<rparr>)"
    and "\<And>u r p. P (new_card (get_attributes_for_set (base_set g)) u r p)"
  shows "\<forall>c \<in> set (set_cards (fst (process_group uid g))). P c"
proof -
  have "\<forall>c \<in> set (base_cards (clean_stage uid g)). P c"
    using assms(1) by (auto simp: clean_stage_eq dest!: cards_from_set)
  then have "\<forall>c \<in> set (base_cards (parallel_stage uid g)). P c"
    unfolding parallel_stage_def
    by (rule parallel_steps_preserve[OF _ assms(2) assms(3)])
  moreover have "set (set_cards (fst (process_group uid g))) \<subseteq> set (base_cards (parallel_stage uid g))"
    by (simp add: process_group_stages remove_duplicates_eq keep_first_subset)
  ultimately show ?thesis by blast
qed

section \<open>Uniform sequence collapse\<close>

lemma set_cards_origin:
  "\<forall>c \<in> set (set_cards (fst (process_group uid g))).
     (card_note c = None \<longrightarrow>
        (\<exists>i<length (base_rows g).
           c\<lparr>card_parallels := None\<rparr> =
             clean_card (get_attributes_for_set (base_set g))
               (uniform_seq (present_sequences (base_rows g))) (uid + i) (base_rows g ! i))) \<and>
     (card_note c \<noteq> None \<longrightarrow> card_note c = Some ''No Base Set Version'')"
proof (rule set_cards_induct)
  fix i assume "i < length (base_rows g)"
  then show "(card_note (clean_card (get_attributes_for_set (base_set g))
                   (uniform_seq (present_sequences (base_rows g))) (uid + i) (base_rows g ! i)) = None \<longrightarrow>
        (\<exists>j<length (base_rows g).
           (clean_card (get_attributes_for_set (base_set g))
                   (uniform_seq (present_sequences (base_rows g))) (uid + i) (base_rows g ! i))
              \<lparr>card_parallels := None\<rparr> =
             clean_card (get_attributes_for_set (base_set g))
               (uniform_seq (present_sequences (base_rows g))) (uid + j) (base_rows g ! j))) \<and>
     (card_note (clean_card (get_attributes_for_set (base_set g))
                   (uniform_seq (present_sequences (base_rows g))) (uid + i) (base_rows g ! i)) \<noteq> None \<longrightarrow>
      card_note (clean_card (get_attributes_for_set (base_set g))
                   (uniform_seq (present_sequences (base_rows g))) (uid + i) (base_rows g ! i)) =
        Some ''No Base Set Version'')"
    by (intro conjI impI exI[of _ i]) (simp_all add: clean_card_def)
next
  fix c :: card_obj and ps :: "parallel_obj list"
  assume "(card_note c = None \<longrightarrow>
        (\<exists>i<length (base_rows g).
           c\<lparr>card_parallels := None\<rparr> =
             clean_card (get_attributes_for_set (base_set g))
               (uniform_seq (present_sequences (base_rows g))) (uid + i) (base_rows g ! i))) \<and>
     (card_note c \<noteq> None \<longrightarrow> card_note c = Some ''No Base Set Version'')"
  then show "(card_note (c\<lparr>card_parallels := Some ps\<rparr>) = None \<longrightarrow>
        (\<exists>i<length (base_rows g).
           (c\<lparr>card_parallels := Some ps\<rparr>)\<lparr>card_parallels := None\<rparr> =
             clean_card (get_attributes_for_set (base_set g))
               (uniform_seq (present_sequences (base_rows g))) (uid + i) (base_rows g ! i))) \<and>
     (card_note (c\<lparr>card_parallels := Some ps\<rparr>) \<noteq> None \<longrightarrow>
      card_note (c\<lparr>card_parallels := Some ps\<rparr>) = Some ''No Base Set Version'')"
    by simp
next
  fix u r p
  show "(card_note (new_card (get_attributes_for_set (base_set g)) u r p) = None \<longrightarrow>
        (\<exists>i<length (base_rows g).
           (new_card (get_attributes_for_set (base_set g)) u r p)\<lparr>card_parallels := None\<rparr> =
             clean_card (get_attributes_for_set (base_set g))
               (uniform_seq (present_sequences (base_rows g))) (uid + i) (base_rows g ! i))) \<and>
     (card_note (new_card (get_attributes_for_set (base_set g)) u r p) \<noteq> None \<longrightarrow>
      card_note (new_card (get_attributes_for_set (base_set g)) u r p) = Some ''No Base Set Version'')"
    by (simp add: new_card_def)
qed

lemma base_derived_card:
  assumes "c \<in> set (set_cards (fst (process_group uid g)))" "card_note c = None"
  shows "\<exists>i<length (base_rows g).
           card_uniqueId c = uid + i \<and>
           card_number c = normalize_card_number (CARD_NUMBER (base_rows g ! i)) \<and>
           card_name c = normalize_text (ATHLETE (base_rows g ! i)) \<and>
           card_numberedTo c =
             (if uniform_seq (present_sequences (base_rows g)) then None
              else seq_value_of (base_rows g ! i))"
proof -
  from set_cards_origin assms obtain i where i: "i < length (base_rows g)"
    and eq: "c\<lparr>card_parallels := None\<rparr> =
             clean_card (get_attributes_for_set (base_set g))
               (uniform_seq (present_sequences (base_rows g))) (uid + i) (base_rows g ! i)"
    by blast
  have "card_uniqueId c = card_uniqueId (c\<lparr>card_parallels := None\<rparr>)"
    "card_number c = card_number (c\<lparr>card_parallels := None\<rparr>)"
    "card_name c = card_name (c\<lparr>card_parallels := None\<rparr>)"
    "card_numberedTo c = card_numberedTo (c\<lparr>card_parallels := None\<rparr>)"
    by simp_all
  then have "card_uniqueId c = uid + i \<and>
           card_number c = normalize_card_number (CARD_NUMBER (base_rows g ! i)) \<and>
           card_name c = normalize_text (ATHLETE (base_rows g ! i)) \<and>
           card_numberedTo c =
             (if uniform_seq (present_sequences (base_rows g)) then None
              else seq_value_of (base_rows g ! i))"
    unfolding eq by (simp add: clean_card_def)
  with i show ?thesis by blast
qed

lemma set_numberedTo_eq:
  "set_numberedTo (fst (process_group uid g)) =
     (if uniform_seq (present_sequences (base_rows g)) then the_elem (present_sequences (base_rows g))
      else None)"
  by (simp add: process_group_stages base_numberedTo_eq)

text \<open>
  C1 (amended). When the group has a base row and every base row has the parsed
  sequence value \<open>V\<close>, the set has \<open>numberedTo = V\<close> and no card built from a base row
  has a \<open>numberedTo\<close> of its own. When no base row has a sequence value, or two base rows
  have different ones, the set has no \<open>numberedTo\<close> and every card of the set built from
  a base row has the sequence value of that row as its \<open>numberedTo\<close> (none when the row
  has none). Every card of the set is either built from a base row (it has no note, and
  the identifier, number and name of that row), or a card made for a parallel row, with
  the note \<^verbatim>\<open>No Base Set Version\<close>; such a card may have a \<open>numberedTo\<close> of its own.
\<close>

theorem uniform_collapse:
  "(base_rows g \<noteq> [] \<and> (\<forall>r \<in> set (base_rows g). seq_value_of r = Some V) \<longrightarrow>
      set_numberedTo (fst (process_group uid g)) = Some V \<and>
      (\<forall>c \<in> set (set_cards (fst (process_group uid g))).
         card_note c = None \<longrightarrow> card_numberedTo c = None)) \<and>
   ((\<forall>r \<in> set (base_rows g). seq_value_of r = None) \<or>
    (\<exists>r1 \<in> set (base_rows g). \<exists>r2 \<in> set (base_rows g).
       seq_value_of r1 \<noteq> None \<and> seq_value_of r2 \<noteq> None \<and> seq_value_of r1 \<noteq> seq_value_of r2) \<longrightarrow>
      set_numberedTo (fst (process_group uid g)) = None \<and>
      (\<forall>c \<in> set (set_cards (fst (process_group uid g))).
         card_note c = None \<longrightarrow>
           (\<exists>i<length (base_rows g).
              card_uniqueId c = uid + i \<and>
              card_number c = normalize_card_number (CARD_NUMBER (base_rows g ! i)) \<and>
              card_name c = normalize_text (ATHLETE (base_rows g ! i)) \<and>
              card_numberedTo c = seq_value_of (base_rows g ! i)))) \<and>
   (\<forall>c \<in> set (set_cards (fst (process_group uid g))).
      (card_note c = None \<and>
       (\<exists>i<length (base_rows g).
          card_uniqueId c = uid + i \<and>
          card_number c = normalize_card_number (CARD_NUMBER (base_rows g ! i)) \<and>
          card_name c = normalize_text (ATHLETE (base_rows g ! i)))) \<or>
      card_note c = Some ''No Base Set Version'')"
proof (intro conjI impI ballI)
  assume a: "base_rows g \<noteq> [] \<and> (\<forall>r \<in> set (base_rows g). seq_value_of r = Some V)"
  then have u: "uniform_seq (present_sequences (base_rows g)) \<and>
                the_elem (present_sequences (base_rows g)) = Some V"
    by (intro uniform_seq_all) simp_all
  then show "set_numberedTo (fst (process_group uid g)) = Some V"
    by (simp add: set_numberedTo_eq)
  fix c assume "c \<in> set (set_cards (fst (process_group uid g)))" "card_note c = None"
  from base_derived_card[OF this] u show "card_numberedTo c = None" by auto
next
  assume a: "(\<forall>r \<in> set (base_rows g). seq_value_of r = None) \<or>
    (\<exists>r1 \<in> set (base_rows g). \<exists>r2 \<in> set (base_rows g).
       seq_value_of r1 \<noteq> None \<and> seq_value_of r2 \<noteq> None \<and> seq_value_of r1 \<noteq> seq_value_of r2)"
  then have u: "\<not> uniform_seq (present_sequences (base_rows g))"
    using uniform_seq_none uniform_seq_two by blast
  then show "set_numberedTo (fst (process_group uid g)) = None"
    by (simp add: set_numberedTo_eq)
  fix c assume "c \<in> set (set_cards (fst (process_group uid g)))" "card_note c = None"
  from base_derived_card[OF this] u
  show "\<exists>i<length (base_rows g).
              card_uniqueId c = uid + i \<and>
              card_number c = normalize_card_number (CARD_NUMBER (base_rows g ! i)) \<and>
              card_name c = normalize_text (ATHLETE (base_rows g ! i)) \<and>
              card_numberedTo c = seq_value_of (base_rows g ! i)"
    by simp
next
  fix c assume c: "c \<in> set (set_cards (fst (process_group uid g)))"
  show "(card_note c = None \<and>
       (\<exists>i<length (base_rows g).
          card_uniqueId c = uid + i \<and>
          card_number c = normalize_card_number (CARD_NUMBER (base_rows g ! i)) \<and>
          card_name c = normalize_text (ATHLETE (base_rows g ! i)))) \<or>
      card_note c = Some ''No Base Set Version''"
  proof (cases "card_note c = None")
    case True
    from base_derived_card[OF c True] True show ?thesis by blast
  next
    case False
    with set_cards_origin c show ?thesis by blast
  qed
qed


lemma example_sequences:
  "seq_value_of (mk_row i s n a ''10'') = Some 10"
  "seq_value_of (mk_row i s n a ''25'') = Some 25"
  "seq_value_of (mk_row i s n a ''5'') = Some 5"
  "seq_value_of (mk_row i s n a ''50'') = Some 50"
  "seq_value_of (mk_row i s n a []) = None"
  by (simp_all add: seq_value_of_def mk_row_def normalize_text_def strip_def isspace_def
      isdigit_def isdigit_char_def py_int_def)

theorem uniform_collapse_witness:
  "base_rows placeholder_group \<noteq> [] \<and>
   seq_value_of (mk_row 0 ''Topps'' ''1'' ''A'' ''10'') = Some 10 \<and>
   set_numberedTo (fst (process_group 0 placeholder_group)) = Some 10 \<and>
   seq_value_of (mk_row 1 ''Topps'' ''2'' ''B'' ''25'') = Some 25 \<and>
   set_numberedTo (fst (process_group 0 mixed_group)) = None"
proof -
  have h1: "base_rows placeholder_group \<noteq> [] \<and>
            (\<forall>r \<in> set (base_rows placeholder_group). seq_value_of r = Some 10)"
    by (simp add: placeholder_group_def example_sequences)
  have h2: "(\<forall>r \<in> set (base_rows mixed_group). seq_value_of r = None) \<or>
    (\<exists>r1 \<in> set (base_rows mixed_group). \<exists>r2 \<in> set (base_rows mixed_group).
       seq_value_of r1 \<noteq> None \<and> seq_value_of r2 \<noteq> None \<and> seq_value_of r1 \<noteq> seq_value_of r2)"
    by (simp add: mixed_group_def example_sequences)
  note a = uniform_collapse[of placeholder_group 10 0, THEN conjunct1, rule_format, OF h1, THEN conjunct1]
  note b = uniform_collapse[of mixed_group 0 0, THEN conjunct2, THEN conjunct1, rule_format, OF h2,
      THEN conjunct1]
  from a b show ?thesis
    by (simp add: placeholder_group_def example_sequences)
qed

lemma placeholder_group_result:
  "process_group 0 placeholder_group =
    (\<lparr>set_uniqueId = 2, set_name = ''Topps'',
      set_cards = [\<lparr>card_uniqueId = 0, card_number = ''1'', card_name = ''A'', card_sequence = None,
                     card_parallels = None, card_attributes = None, card_numberedTo = None,
                     card_note = None\<rparr>,
                   \<lparr>card_uniqueId = 1, card_number = ''2'', card_name = ''B'', card_sequence = None,
                     card_parallels = Some [\<lparr>parallel_name = ''Gold'', parallel_numberedTo = Some 5\<rparr>],
                     card_attributes = None, card_numberedTo = Some 5,
                     card_note = Some ''No Base Set Version''\<rparr>],
      set_parallels = [], set_variations = [], set_numberedTo = Some 10\<rparr>, [], 3)"
  by code_simp

text \<open>
  The case the statement above leaves open: only some base rows have a sequence value,
  and those agree. \<^verbatim>\<open>base_sequences\<close> receives the values that are not \<^verbatim>\<open>None\<close> only, so the
  test \<^verbatim>\<open>None not in base_sequences\<close> never fails and the set takes the value, here 10
  from the first of two rows, while the second row has none.
\<close>

lemma partial_group_result:
  "set_numberedTo (fst (process_group 0 partial_group)) = Some 10 \<and>
   map card_numberedTo (set_cards (fst (process_group 0 partial_group))) = [None, None] \<and>
   map seq_value_of (base_rows partial_group) = [Some 10, None]"
  by code_simp

text \<open>
  With one base row numbered to 10 and a parallel row for a card number without base
  card, numbered to 5, the set has \<open>numberedTo = 10\<close> and the card made for the parallel
  row has \<open>numberedTo = 5\<close>.
\<close>

theorem uniform_collapse_counterexample:
  "\<not> (\<forall>uid g V.
        base_rows g \<noteq> [] \<and> (\<forall>r \<in> set (base_rows g). seq_value_of r = Some V) \<longrightarrow>
        set_numberedTo (fst (process_group uid g)) = Some V \<and>
        (\<forall>c \<in> set (set_cards (fst (process_group uid g))). card_numberedTo c = None))"
proof
  assume H: "\<forall>uid g V.
        base_rows g \<noteq> [] \<and> (\<forall>r \<in> set (base_rows g). seq_value_of r = Some V) \<longrightarrow>
        set_numberedTo (fst (process_group uid g)) = Some V \<and>
        (\<forall>c \<in> set (set_cards (fst (process_group uid g))). card_numberedTo c = None)"
  have h1: "base_rows placeholder_group \<noteq> [] \<and>
            (\<forall>r \<in> set (base_rows placeholder_group). seq_value_of r = Some 10)"
    by (simp add: placeholder_group_def example_sequences)
  from H[rule_format, OF h1, of 0]
  have "\<forall>c \<in> set (set_cards (fst (process_group 0 placeholder_group))). card_numberedTo c = None"
    by (rule conjunct2)
  then show False
    unfolding placeholder_group_result by simp
qed

section \<open>Sparse fields\<close>

lemma sparse_parallel_json: "sparse (parallel_json p)"
  by (cases "parallel_numberedTo p")
     (simp_all add: parallel_json_def opt_key_def nat_json_def empty_value_def optional_fields_def)

lemma sparse_card_json: "card_sparse c \<Longrightarrow> sparse (card_json uuid c)"
proof -
  assume a: "card_sparse c"
  have s: "opt_key ''_sequence'' (\<lambda>v. case v of None \<Rightarrow> JNull | Some n \<Rightarrow> nat_json n) (card_sequence c) = []"
    using a by (simp add: card_sparse_def opt_key_def)
  have p: "list_all (\<lambda>kv. \<not> (fst kv \<in> set optional_fields \<and> empty_value (snd kv)) \<and> sparse (snd kv))
             (opt_key ''parallels'' (\<lambda>ps. JArr (map parallel_json ps)) (card_parallels c))"
    using a by (cases "card_parallels c")
      (simp_all add: card_sparse_def opt_key_def empty_value_def list_all_iff sparse_parallel_json)
  have t: "list_all (\<lambda>kv. \<not> (fst kv \<in> set optional_fields \<and> empty_value (snd kv)) \<and> sparse (snd kv))
             (opt_key ''attributes'' (\<lambda>as. JArr (map JStr as)) (card_attributes c))"
    using a by (cases "card_attributes c")
      (simp_all add: card_sparse_def opt_key_def empty_value_def list_all_iff)
  have n: "list_all (\<lambda>kv. \<not> (fst kv \<in> set optional_fields \<and> empty_value (snd kv)) \<and> sparse (snd kv))
             (opt_key ''numberedTo'' nat_json (card_numberedTo c))"
    by (cases "card_numberedTo c") (simp_all add: opt_key_def empty_value_def nat_json_def)
  have o: "list_all (\<lambda>kv. \<not> (fst kv \<in> set optional_fields \<and> empty_value (snd kv)) \<and> sparse (snd kv))
             (opt_key ''note'' JStr (card_note c))"
    using a by (cases "card_note c") (simp_all add: card_sparse_def opt_key_def empty_value_def)
  show ?thesis
    unfolding card_json_def sparse.simps list_all_append s
    using p t n o by (simp add: optional_fields_def)
qed

lemma set_cards_sparse:
  "\<forall>c \<in> set (set_cards (fst (process_group uid g))). card_sparse c"
proof (rule set_cards_induct)
  fix i
  show "card_sparse (clean_card (get_attributes_for_set (base_set g))
                   (uniform_seq (present_sequences (base_rows g))) (uid + i) (base_rows g ! i))"
    by (simp add: card_sparse_def clean_card_def)
next
  fix c :: card_obj and ps :: "parallel_obj list"
  assume "card_sparse c" "ps \<noteq> []"
  then show "card_sparse (c\<lparr>card_parallels := Some ps\<rparr>)"
    by (simp add: card_sparse_def)
next
  fix u r p
  show "card_sparse (new_card (get_attributes_for_set (base_set g)) u r p)"
    by (simp add: card_sparse_def new_card_def)
qed

lemma process_groups_foldl:
  "foldl (\<lambda>(sets, printed, uid) g.
              (case process_group uid g of
                 (set_obj, printed', uid') \<Rightarrow> (sets @ [set_obj], printed @ printed', uid')))
         (sets0, printed0, uid0) gs = (sets, printed, uid) \<Longrightarrow>
   \<forall>s \<in> set sets. s \<in> set sets0 \<or> (\<exists>u g. s = fst (process_group u g))"
proof (induction gs arbitrary: sets0 printed0 uid0)
  case Nil
  then show ?case by simp
next
  case (Cons g gs)
  obtain so pr u' where r: "process_group uid0 g = (so, pr, u')"
    by (metis prod_cases3)
  with Cons.prems have
    "foldl (\<lambda>(sets, printed, uid) g.
              (case process_group uid g of
                 (set_obj, printed', uid') \<Rightarrow> (sets @ [set_obj], printed @ printed', uid')))
         (sets0 @ [so], printed0 @ pr, u') gs = (sets, printed, uid)"
    by simp
  from Cons.IH[OF this] have "\<forall>s \<in> set sets. s \<in> set (sets0 @ [so]) \<or> (\<exists>u g. s = fst (process_group u g))" .
  moreover have "so = fst (process_group uid0 g)" using r by simp
  ultimately show ?case by auto
qed

lemma process_groups_sets:
  "process_groups uid0 gs = (sets, printed, uid) \<Longrightarrow>
   \<forall>s \<in> set sets. \<exists>u g. s = fst (process_group u g)"
  unfolding process_groups_def by (drule process_groups_foldl) simp

lemma process_csv_sets:
  assumes "process_csv_with_pandas loaded = Inr (doc, printed)"
  shows "(\<forall>s \<in> set (top_sets doc). \<exists>u g. s = fst (process_group u g)) \<and>
         top_attributes doc = [] \<and> top_notes doc = []"
proof -
  from assms obtain df where l: "loaded = Inr df"
    by (cases loaded) (simp_all add: process_csv_with_pandas_def)
  from assms l obtain row0 rest where rs: "rows df = row0 # rest"
    by (cases "rows df") (simp_all add: process_csv_with_pandas_def)
  from assms l rs have cols: "set required_columns \<subseteq> set (columns df)"
    by (simp add: process_csv_with_pandas_def split: if_splits)
  obtain sets pr u where pg: "process_groups 0 (merge_groups (initial_groups (rows df))) = (sets, pr, u)"
    by (metis prod_cases3)
  from assms l rs cols pg have "top_sets doc = sets" "top_attributes doc = []" "top_notes doc = []"
    by (auto simp: process_csv_with_pandas_def Let_def)
  with process_groups_sets[OF pg] show ?thesis by simp
qed

lemma set_json_numberedTo:
  "(''numberedTo'', v) \<in> set (obj_fields (set_json uuid s)) \<Longrightarrow> \<not> empty_value v"
  by (cases "set_numberedTo s")
     (auto simp: set_json_def obj_fields_def opt_key_def nat_json_def empty_value_def)

text \<open>
  C5 (amended). In the serialized document of a run that succeeds, every card object
  and every parallel object is sparse: none of \<^verbatim>\<open>numberedTo\<close>, \<^verbatim>\<open>attributes\<close>, \<^verbatim>\<open>note\<close>,
  \<^verbatim>\<open>parallels\<close> is present with \<^verbatim>\<open>null\<close> or an empty value, and the temporary
  \<^verbatim>\<open>_sequence\<close> is gone. A set object has \<^verbatim>\<open>numberedTo\<close> only with a number; it always
  has \<^verbatim>\<open>parallels\<close>, the list of its set-level parallels even when that list is empty,
  and \<^verbatim>\<open>variations\<close>, the empty list. The document always has \<^verbatim>\<open>attributes\<close> and
  \<^verbatim>\<open>notes\<close>, both the empty list.
\<close>

theorem sparse_fields:
  "process_csv_with_pandas loaded = Inr (doc, printed) \<longrightarrow>
     (\<forall>s \<in> set (top_sets doc).
        (\<forall>c \<in> set (set_cards s). sparse (card_json uuid c)) \<and>
        (\<forall>p \<in> set (set_parallels s). sparse (parallel_json p)) \<and>
        (\<forall>v. (''numberedTo'', v) \<in> set (obj_fields (set_json uuid s)) \<longrightarrow> \<not> empty_value v) \<and>
        (''parallels'', JArr (map parallel_json (set_parallels s))) \<in> set (obj_fields (set_json uuid s)) \<and>
        (''variations'', JArr []) \<in> set (obj_fields (set_json uuid s))) \<and>
     (''attributes'', JArr []) \<in> set (obj_fields (top_json uuid doc)) \<and>
     (''notes'', JArr []) \<in> set (obj_fields (top_json uuid doc))"
proof (intro impI conjI ballI allI)
  assume a: "process_csv_with_pandas loaded = Inr (doc, printed)"
  note f = process_csv_sets[OF a]
  show "(''attributes'', JArr []) \<in> set (obj_fields (top_json uuid doc))"
    using f by (simp add: top_json_def obj_fields_def)
  show "(''notes'', JArr []) \<in> set (obj_fields (top_json uuid doc))"
    using f by (simp add: top_json_def obj_fields_def)
  fix s assume s: "s \<in> set (top_sets doc)"
  with f obtain u g where sg: "s = fst (process_group u g)" by blast
  show "(''parallels'', JArr (map parallel_json (set_parallels s))) \<in> set (obj_fields (set_json uuid s))"
    by (simp add: set_json_def obj_fields_def)
  show "(''variations'', JArr []) \<in> set (obj_fields (set_json uuid s))"
    by (simp add: set_json_def obj_fields_def sg process_group_stages)
  show "\<not> empty_value v" if "(''numberedTo'', v) \<in> set (obj_fields (set_json uuid s))" for v
    using that by (rule set_json_numberedTo)
  show "sparse (parallel_json p)" for p
    by (rule sparse_parallel_json)
  show "sparse (card_json uuid c)" if "c \<in> set (set_cards s)" for c
    using that set_cards_sparse[of u g] sg by (intro sparse_card_json) blast
qed

lemma one_row_result: "process_csv_with_pandas (Inr one_row_frame) = Inr (one_row_doc, [])"
  by code_simp

theorem sparse_fields_witness:
  "process_csv_with_pandas (Inr one_row_frame) = Inr (one_row_doc, []) \<and>
   sparse (card_json (\<lambda>k. ''id'') (plain_card 0 ''1'' ''A'' None)) \<and>
   (''parallels'', JArr []) \<in> set (obj_fields (set_json (\<lambda>k. ''id'') (hd (top_sets one_row_doc)))) \<and>
   (''attributes'', JArr []) \<in> set (obj_fields (top_json (\<lambda>k. ''id'') one_row_doc))"
proof -
  note t = sparse_fields[of "Inr one_row_frame" one_row_doc "[]" "\<lambda>k. ''id''", rule_format,
      OF one_row_result]
  have m: "hd (top_sets one_row_doc) \<in> set (top_sets one_row_doc)"
    by (simp add: one_row_doc_def)
  note s = t[THEN conjunct1, rule_format, OF m]
  have c: "plain_card 0 ''1'' ''A'' None \<in> set (set_cards (hd (top_sets one_row_doc)))"
    by (simp add: one_row_doc_def)
  have p: "set_parallels (hd (top_sets one_row_doc)) = []"
    by (simp add: one_row_doc_def)
  from s[THEN conjunct1, rule_format, OF c]
    s[THEN conjunct2, THEN conjunct2, THEN conjunct2, THEN conjunct1]
    t[THEN conjunct2, THEN conjunct1] one_row_result
  show ?thesis
    unfolding p by simp
qed

text \<open>
  The document of a file with a single row is not sparse as a whole: it has
  \<^verbatim>\<open>attributes\<close> with the empty list, and its set has \<^verbatim>\<open>parallels\<close> with the empty list.
\<close>

theorem sparse_fields_counterexample:
  "\<not> (\<forall>loaded doc printed uuid.
        process_csv_with_pandas loaded = Inr (doc, printed) \<longrightarrow> sparse (top_json uuid doc))"
proof
  assume H: "\<forall>loaded doc printed uuid.
        process_csv_with_pandas loaded = Inr (doc, printed) \<longrightarrow> sparse (top_json uuid doc)"
  have "sparse (top_json (\<lambda>k. ''id'') one_row_doc)"
    by (rule H[rule_format, OF one_row_result])
  then show False
    by (simp add: top_json_def optional_fields_def empty_value_def one_row_doc_def)
qed

section \<open>Grouping the parallel rows by name\<close>

lemma setdefault_append_keys:
  "map fst (setdefault_append d k row) = (if k \<in> fst ` set d then map fst d else map fst d @ [k])"
  by (induction d k row rule: setdefault_append.induct) auto

lemma setdefault_append_map_of:
  "map_of (setdefault_append d k row) =
     (map_of d)(k \<mapsto> (case map_of d k of None \<Rightarrow> [] | Some rs \<Rightarrow> rs) @ [row])"
  by (induction d k row rule: setdefault_append.induct) (auto simp: fun_eq_iff)

lemma parallels_by_name_snoc:
  "parallels_by_name (prs @ [(row, nm)]) = setdefault_append (parallels_by_name prs) nm row"
  by (simp add: parallels_by_name_def)

lemma parallels_by_name_keys:
  "map fst (parallels_by_name prs) = rev (remdups (rev (map snd prs)))"
proof (induction prs rule: rev_induct)
  case Nil
  then show ?case by (simp add: parallels_by_name_def)
next
  case (snoc pr prs)
  obtain row nm where pr: "pr = (row, nm)" by (cases pr)
  have "fst ` set (parallels_by_name prs) = snd ` set prs"
    using snoc.IH by (metis list.set_map set_remdups set_rev)
  then show ?case
    by (simp add: pr parallels_by_name_snoc setdefault_append_keys snoc.IH)
qed

lemma parallels_by_name_distinct: "distinct (map fst (parallels_by_name prs))"
  by (simp add: parallels_by_name_keys)

lemma parallels_by_name_names: "fst ` set (parallels_by_name prs) = snd ` set prs"
  using parallels_by_name_keys[of prs] by (metis list.set_map set_remdups set_rev)

lemma rows_of_name_absent: "nm \<notin> snd ` set prs \<Longrightarrow> rows_of_name prs nm = []"
  by (auto simp: rows_of_name_def filter_empty_conv)

lemma parallels_by_name_map_of:
  "map_of (parallels_by_name prs) nm =
     (if nm \<in> snd ` set prs then Some (rows_of_name prs nm) else None)"
proof (induction prs arbitrary: nm rule: rev_induct)
  case Nil
  then show ?case by (simp add: parallels_by_name_def)
next
  case (snoc pr prs)
  obtain row k where pr: "pr = (row, k)" by (cases pr)
  show ?case
  proof (cases "nm = k")
    case True
    have "(case map_of (parallels_by_name prs) k of None \<Rightarrow> [] | Some rs \<Rightarrow> rs) = rows_of_name prs k"
      by (simp add: snoc.IH rows_of_name_absent)
    with True show ?thesis
      by (simp add: pr parallels_by_name_snoc setdefault_append_map_of rows_of_name_def)
  next
    case False
    then show ?thesis
      by (simp add: pr parallels_by_name_snoc setdefault_append_map_of snoc.IH rows_of_name_def)
  qed
qed

lemma parallels_by_name_entry:
  assumes "(nm, rs) \<in> set (parallels_by_name prs)"
  shows "rs = rows_of_name prs nm \<and> rs \<noteq> [] \<and> nm \<in> snd ` set prs"
proof -
  from assms have "map_of (parallels_by_name prs) nm = Some rs"
    using parallels_by_name_distinct by (simp add: map_of_eq_Some_iff)
  then have a: "nm \<in> snd ` set prs" and b: "rs = rows_of_name prs nm"
    by (simp_all add: parallels_by_name_map_of split: if_splits)
  from a have "rows_of_name prs nm \<noteq> []"
    by (auto simp: rows_of_name_def filter_empty_conv)
  with a b show ?thesis by simp
qed

lemma parallels_by_name_split:
  assumes "parallels_by_name prs = es1 @ (nm, rs) # es2"
  shows "nm \<notin> fst ` set es1 \<and> nm \<notin> fst ` set es2 \<and> rs = rows_of_name prs nm \<and> rs \<noteq> []"
proof -
  have "distinct (map fst (es1 @ (nm, rs) # es2))"
    using parallels_by_name_distinct[of prs] assms by simp
  then have "nm \<notin> fst ` set es1 \<and> nm \<notin> fst ` set es2" by auto
  moreover have "(nm, rs) \<in> set (parallels_by_name prs)" using assms by simp
  ultimately show ?thesis using parallels_by_name_entry by blast
qed

section \<open>The state of the loop over the parallel names\<close>

lemma attach_row_match:
  assumes "i < length (base_cards st)"
    "card_number (base_cards st ! i) = normalize_card_number (CARD_NUMBER row)"
    "\<forall>j<i. card_number (base_cards st ! j) \<noteq> normalize_card_number (CARD_NUMBER row)"
  shows "attach_row attrs nm st row =
     st\<lparr>base_cards := (base_cards st)[i := (base_cards st ! i)\<lparr>card_parallels :=
          Some ((case card_parallels (base_cards st ! i) of None \<Rightarrow> [] | Some ps \<Rightarrow> ps) @
                [\<lparr>parallel_name = nm, parallel_numberedTo = seq_value_of row\<rparr>])\<rparr>]\<rparr>"
  by (simp add: attach_row_def Let_def attach_first_some[OF assms])

lemma attach_row_no_match:
  assumes "\<forall>c \<in> set (base_cards st). card_number c \<noteq> normalize_card_number (CARD_NUMBER row)"
  shows "attach_row attrs nm st row =
     st\<lparr>base_cards := base_cards st @
            [new_card attrs (next_uuid st) row
               \<lparr>parallel_name = nm, parallel_numberedTo = seq_value_of row\<rparr>],
        base_card_numbers := insert (normalize_card_number (CARD_NUMBER row)) (base_card_numbers st),
        next_uuid := Suc (next_uuid st)\<rparr>"
proof -
  from assms have "attach_first (normalize_card_number (CARD_NUMBER row))
      \<lparr>parallel_name = nm, parallel_numberedTo = seq_value_of row\<rparr> (base_cards st) = None"
    by (simp add: attach_first_none_iff)
  then show ?thesis
    by (simp add: attach_row_def Let_def)
qed

lemma attach_row_slp:
  "set_level_parallels (attach_row attrs nm st row) = set_level_parallels st"
  by (simp add: attach_row_def Let_def split: option.splits)

lemma attach_rows_slp:
  "set_level_parallels (foldl (attach_row attrs nm) st rs) = set_level_parallels st"
  by (induction rs arbitrary: st) (simp_all add: attach_row_slp)

lemma parallel_name_step_set_level:
  "(\<lambda>r. normalize_card_number (CARD_NUMBER r)) ` set rs = base_card_numbers st \<Longrightarrow>
   parallel_name_step attrs st (nm, rs) =
     st\<lparr>set_level_parallels := set_level_parallels st @ [set_level_parallel nm rs]\<rparr>"
  by (simp add: parallel_name_step_eq set_level_parallel_def)

lemma parallel_name_step_card_level:
  "(\<lambda>r. normalize_card_number (CARD_NUMBER r)) ` set rs \<noteq> base_card_numbers st \<Longrightarrow>
   parallel_name_step attrs st (nm, rs) = foldl (attach_row attrs nm) st rs"
  by (simp add: parallel_name_step_eq)

lemma parallel_name_step_slp:
  "set_level_parallels (parallel_name_step attrs st (nm, rs)) =
     set_level_parallels st @
       (if (\<lambda>r. normalize_card_number (CARD_NUMBER r)) ` set rs = base_card_numbers st
        then [set_level_parallel nm rs] else [])"
  by (simp add: parallel_name_step_set_level parallel_name_step_card_level attach_rows_slp)

lemma parallel_steps_other_names:
  "nm \<notin> fst ` set es \<Longrightarrow>
   filter (\<lambda>p. parallel_name p = nm) (set_level_parallels (foldl (parallel_name_step attrs) st es)) =
   filter (\<lambda>p. parallel_name p = nm) (set_level_parallels st)"
proof (induction es arbitrary: st)
  case Nil
  then show ?case by simp
next
  case (Cons e es)
  obtain k rs where e: "e = (k, rs)" by (cases e)
  with Cons.prems have k: "k \<noteq> nm" and rest: "nm \<notin> fst ` set es" by auto
  have "filter (\<lambda>p. parallel_name p = nm) (set_level_parallels (parallel_name_step attrs st (k, rs))) =
        filter (\<lambda>p. parallel_name p = nm) (set_level_parallels st)"
    using k by (simp add: parallel_name_step_slp set_level_parallel_def)
  with Cons.IH[OF rest, of "parallel_name_step attrs st (k, rs)"] e show ?case by simp
qed

lemma attach_row_numbers_ok: "numbers_ok st \<Longrightarrow> numbers_ok (attach_row attrs nm st row)"
proof (cases "attach_first (normalize_card_number (CARD_NUMBER row))
                \<lparr>parallel_name = nm, parallel_numberedTo = seq_value_of row\<rparr> (base_cards st)")
  case None
  assume "numbers_ok st"
  with None show ?thesis
    by (simp add: attach_row_def Let_def numbers_ok_def new_card_def)
next
  case (Some cs')
  assume a: "numbers_ok st"
  from attach_first_numbers[OF Some] have "card_number ` set cs' = card_number ` set (base_cards st)"
    by (metis list.set_map)
  with a Some show ?thesis
    by (simp add: attach_row_def Let_def numbers_ok_def)
qed

lemma attach_rows_numbers_ok: "numbers_ok st \<Longrightarrow> numbers_ok (foldl (attach_row attrs nm) st rs)"
  by (induction rs arbitrary: st) (simp_all add: attach_row_numbers_ok)

lemma parallel_name_step_numbers_ok:
  "numbers_ok st \<Longrightarrow> numbers_ok (parallel_name_step attrs st e)"
proof (cases e)
  case (Pair nm rs)
  assume "numbers_ok st"
  then show ?thesis
    unfolding Pair parallel_name_step_eq
    by (simp add: attach_rows_numbers_ok) (simp add: numbers_ok_def)
qed

lemma parallel_steps_numbers_ok:
  "numbers_ok st \<Longrightarrow> numbers_ok (foldl (parallel_name_step attrs) st es)"
  by (induction es arbitrary: st) (simp_all add: parallel_name_step_numbers_ok)

lemma cards_from_clean_numbers:
  "map card_number (cards_from (clean_card attrs u) uid rs) =
   map (\<lambda>r. normalize_card_number (CARD_NUMBER r)) rs"
  by (induction rs arbitrary: uid) (simp_all add: clean_card_def)

lemma clean_stage_numbers_ok: "numbers_ok (clean_stage uid g)"
proof -
  have "card_number ` set (cards_from (clean_card (get_attributes_for_set (base_set g))
            (uniform_seq (present_sequences (base_rows g)))) uid (base_rows g)) =
        (\<lambda>r. normalize_card_number (CARD_NUMBER r)) ` set (base_rows g)"
    using cards_from_clean_numbers by (metis list.set_map)
  then show ?thesis
    by (simp add: numbers_ok_def clean_stage_eq)
qed

lemma set_level_parallel_numberedTo:
  "(\<forall>V. rs \<noteq> [] \<and> (\<forall>r \<in> set rs. seq_value_of r = Some V) \<longrightarrow>
        parallel_numberedTo (set_level_parallel nm rs) = Some V) \<and>
   ((\<forall>r \<in> set rs. seq_value_of r = None) \<or>
    (\<exists>r1 \<in> set rs. \<exists>r2 \<in> set rs.
       seq_value_of r1 \<noteq> None \<and> seq_value_of r2 \<noteq> None \<and> seq_value_of r1 \<noteq> seq_value_of r2) \<longrightarrow>
        parallel_numberedTo (set_level_parallel nm rs) = None)"
proof (intro conjI allI impI)
  fix V assume "rs \<noteq> [] \<and> (\<forall>r \<in> set rs. seq_value_of r = Some V)"
  then have "uniform_seq (present_sequences rs) \<and> the_elem (present_sequences rs) = Some V"
    by (intro uniform_seq_all) simp_all
  then show "parallel_numberedTo (set_level_parallel nm rs) = Some V"
    by (simp add: set_level_parallel_def)
next
  assume "(\<forall>r \<in> set rs. seq_value_of r = None) \<or>
    (\<exists>r1 \<in> set rs. \<exists>r2 \<in> set rs.
       seq_value_of r1 \<noteq> None \<and> seq_value_of r2 \<noteq> None \<and> seq_value_of r1 \<noteq> seq_value_of r2)"
  then have "\<not> uniform_seq (present_sequences rs)"
    using uniform_seq_none uniform_seq_two by blast
  then show "parallel_numberedTo (set_level_parallel nm rs) = None"
    by (simp add: set_level_parallel_def)
qed

lemma set_parallels_of_name:
  assumes "parallels_by_name (parallel_rows g) = es1 @ (nm, rs) # es2"
  shows "filter (\<lambda>p. parallel_name p = nm) (set_parallels (fst (process_group uid g))) =
     (if (\<lambda>r. normalize_card_number (CARD_NUMBER r)) ` set rs =
           base_card_numbers (foldl (parallel_name_step (get_attributes_for_set (base_set g)))
                                    (clean_stage uid g) es1)
      then [set_level_parallel nm rs] else [])"
proof -
  let ?step = "parallel_name_step (get_attributes_for_set (base_set g))"
  let ?st = "foldl ?step (clean_stage uid g) es1"
  from parallels_by_name_split[OF assms]
  have n1: "nm \<notin> fst ` set es1" and n2: "nm \<notin> fst ` set es2" by simp_all
  have "parallel_stage uid g = foldl ?step (?step ?st (nm, rs)) es2"
    by (simp add: parallel_stage_def assms)
  then have "filter (\<lambda>p. parallel_name p = nm) (set_level_parallels (parallel_stage uid g)) =
        filter (\<lambda>p. parallel_name p = nm) (set_level_parallels (?step ?st (nm, rs)))"
    by (simp add: parallel_steps_other_names[OF n2])
  also have "\<dots> = filter (\<lambda>p. parallel_name p = nm) (set_level_parallels ?st) @
       (if (\<lambda>r. normalize_card_number (CARD_NUMBER r)) ` set rs = base_card_numbers ?st
        then [set_level_parallel nm rs] else [])"
    by (simp add: parallel_name_step_slp set_level_parallel_def)
  also have "filter (\<lambda>p. parallel_name p = nm) (set_level_parallels ?st) = []"
    by (simp add: parallel_steps_other_names[OF n1] clean_stage_eq)
  finally show ?thesis
    by (simp add: process_group_stages)
qed

section \<open>Set-level and card-level parallels\<close>

text \<open>
  C2 (amended). The parallel rows of a group are taken name by name; \<open>nm\<close> is one of the
  names, \<open>rs\<close> its rows in order (there is at least one, and the name comes once), and
  \<open>st\<close> the state when the name is reached, whose \<open>base_card_numbers\<close> are the numbers of
  the cards built so far: those of the base rows and those of the cards made for rows
  of earlier names. When the canonical card numbers of \<open>rs\<close> are exactly that set, the
  set has exactly one set-level parallel of the name \<open>nm\<close>, no card is changed, and the
  parallel has \<open>numberedTo = V\<close> when every row of \<open>rs\<close> has the sequence value \<open>V\<close>, and
  no \<open>numberedTo\<close> when no row has a sequence value or two rows have different ones.
  Otherwise the set has no set-level parallel of the name \<open>nm\<close> and every row of \<open>rs\<close> is
  attached in turn: the first card built so far with the row's canonical number gets
  the parallel (the name, and the row's sequence value when present) added to its
  parallels; when no card has the number, a new card is added with the note
  \<^verbatim>\<open>No Base Set Version\<close>, the parallel as its only parallel, the attributes of the set,
  the row's number, athlete and sequence value, and its number joins
  \<open>base_card_numbers\<close>.
\<close>

theorem parallel_rows_spec:
  assumes "parallels_by_name (parallel_rows g) = es1 @ (nm, rs) # es2"
    and "st = foldl (parallel_name_step (get_attributes_for_set (base_set g))) (clean_stage uid g) es1"
  shows "rs = rows_of_name (parallel_rows g) nm \<and> rs \<noteq> [] \<and>
    nm \<notin> fst ` set es1 \<and> nm \<notin> fst ` set es2 \<and>
    base_card_numbers st = card_number ` set (base_cards st) \<and>
    ((\<lambda>r. normalize_card_number (CARD_NUMBER r)) ` set rs = base_card_numbers st \<longrightarrow>
       (\<exists>X. filter (\<lambda>p. parallel_name p = nm) (set_parallels (fst (process_group uid g))) =
               [\<lparr>parallel_name = nm, parallel_numberedTo = X\<rparr>] \<and>
            (\<forall>V. (\<forall>r \<in> set rs. seq_value_of r = Some V) \<longrightarrow> X = Some V) \<and>
            ((\<forall>r \<in> set rs. seq_value_of r = None) \<or>
             (\<exists>r1 \<in> set rs. \<exists>r2 \<in> set rs.
                seq_value_of r1 \<noteq> None \<and> seq_value_of r2 \<noteq> None \<and>
                seq_value_of r1 \<noteq> seq_value_of r2) \<longrightarrow> X = None)) \<and>
       base_cards (parallel_name_step (get_attributes_for_set (base_set g)) st (nm, rs)) =
         base_cards st) \<and>
    ((\<lambda>r. normalize_card_number (CARD_NUMBER r)) ` set rs \<noteq> base_card_numbers st \<longrightarrow>
       filter (\<lambda>p. parallel_name p = nm) (set_parallels (fst (process_group uid g))) = [] \<and>
       parallel_name_step (get_attributes_for_set (base_set g)) st (nm, rs) =
         foldl (attach_row (get_attributes_for_set (base_set g)) nm) st rs) \<and>
    (\<forall>s row i.
       i < length (base_cards s) \<and>
       card_number (base_cards s ! i) = normalize_card_number (CARD_NUMBER row) \<and>
       (\<forall>j<i. card_number (base_cards s ! j) \<noteq> normalize_card_number (CARD_NUMBER row)) \<longrightarrow>
       attach_row (get_attributes_for_set (base_set g)) nm s row =
         s\<lparr>base_cards := (base_cards s)[i := (base_cards s ! i)\<lparr>card_parallels :=
              Some ((case card_parallels (base_cards s ! i) of None \<Rightarrow> [] | Some ps \<Rightarrow> ps) @
                    [\<lparr>parallel_name = nm, parallel_numberedTo = seq_value_of row\<rparr>])\<rparr>]\<rparr>) \<and>
    (\<forall>s row.
       (\<forall>c \<in> set (base_cards s). card_number c \<noteq> normalize_card_number (CARD_NUMBER row)) \<longrightarrow>
       attach_row (get_attributes_for_set (base_set g)) nm s row =
         s\<lparr>base_cards := base_cards s @
              [\<lparr>card_uniqueId = next_uuid s,
                card_number = normalize_card_number (CARD_NUMBER row),
                card_name = normalize_text (ATHLETE row),
                card_sequence = None,
                card_parallels = Some [\<lparr>parallel_name = nm, parallel_numberedTo = seq_value_of row\<rparr>],
                card_attributes = (if get_attributes_for_set (base_set g) \<noteq> []
                                   then Some (get_attributes_for_set (base_set g)) else None),
                card_numberedTo = seq_value_of row,
                card_note = Some ''No Base Set Version''\<rparr>],
            base_card_numbers := insert (normalize_card_number (CARD_NUMBER row)) (base_card_numbers s),
            next_uuid := Suc (next_uuid s)\<rparr>)"
proof -
  let ?attrs = "get_attributes_for_set (base_set g)"
  let ?canon = "\<lambda>r. normalize_card_number (CARD_NUMBER r)"
  note sp = parallels_by_name_split[OF assms(1)]
  have A: "rs = rows_of_name (parallel_rows g) nm" and B: "rs \<noteq> []"
    and C: "nm \<notin> fst ` set es1" and D: "nm \<notin> fst ` set es2"
    using sp by blast+
  have "numbers_ok st"
    unfolding assms(2) by (intro parallel_steps_numbers_ok clean_stage_numbers_ok)
  then have E: "base_card_numbers st = card_number ` set (base_cards st)"
    by (simp add: numbers_ok_def)
  note f = set_parallels_of_name[OF assms(1), of uid, folded assms(2)]
  have F: "?canon ` set rs = base_card_numbers st \<longrightarrow>
       (\<exists>X. filter (\<lambda>p. parallel_name p = nm) (set_parallels (fst (process_group uid g))) =
               [\<lparr>parallel_name = nm, parallel_numberedTo = X\<rparr>] \<and>
            (\<forall>V. (\<forall>r \<in> set rs. seq_value_of r = Some V) \<longrightarrow> X = Some V) \<and>
            ((\<forall>r \<in> set rs. seq_value_of r = None) \<or>
             (\<exists>r1 \<in> set rs. \<exists>r2 \<in> set rs.
                seq_value_of r1 \<noteq> None \<and> seq_value_of r2 \<noteq> None \<and>
                seq_value_of r1 \<noteq> seq_value_of r2) \<longrightarrow> X = None)) \<and>
       base_cards (parallel_name_step ?attrs st (nm, rs)) = base_cards st"
  proof (intro impI conjI)
    assume cov: "?canon ` set rs = base_card_numbers st"
    note n = set_level_parallel_numberedTo[of rs nm]
    have 1: "filter (\<lambda>p. parallel_name p = nm) (set_parallels (fst (process_group uid g))) =
               [\<lparr>parallel_name = nm, parallel_numberedTo = parallel_numberedTo (set_level_parallel nm rs)\<rparr>]"
      using f cov by (simp add: set_level_parallel_def)
    have 2: "\<forall>V. (\<forall>r \<in> set rs. seq_value_of r = Some V) \<longrightarrow>
               parallel_numberedTo (set_level_parallel nm rs) = Some V"
      using n[THEN conjunct1] B by blast
    have 3: "(\<forall>r \<in> set rs. seq_value_of r = None) \<or>
             (\<exists>r1 \<in> set rs. \<exists>r2 \<in> set rs.
                seq_value_of r1 \<noteq> None \<and> seq_value_of r2 \<noteq> None \<and>
                seq_value_of r1 \<noteq> seq_value_of r2) \<longrightarrow>
             parallel_numberedTo (set_level_parallel nm rs) = None"
      by (rule n[THEN conjunct2])
    from 1 2 3
    show "\<exists>X. filter (\<lambda>p. parallel_name p = nm) (set_parallels (fst (process_group uid g))) =
               [\<lparr>parallel_name = nm, parallel_numberedTo = X\<rparr>] \<and>
            (\<forall>V. (\<forall>r \<in> set rs. seq_value_of r = Some V) \<longrightarrow> X = Some V) \<and>
            ((\<forall>r \<in> set rs. seq_value_of r = None) \<or>
             (\<exists>r1 \<in> set rs. \<exists>r2 \<in> set rs.
                seq_value_of r1 \<noteq> None \<and> seq_value_of r2 \<noteq> None \<and>
                seq_value_of r1 \<noteq> seq_value_of r2) \<longrightarrow> X = None)"
      by (intro exI[of _ "parallel_numberedTo (set_level_parallel nm rs)"] conjI)
    show "base_cards (parallel_name_step ?attrs st (nm, rs)) = base_cards st"
      by (simp add: parallel_name_step_set_level[OF cov])
  qed
  have G: "?canon ` set rs \<noteq> base_card_numbers st \<longrightarrow>
       filter (\<lambda>p. parallel_name p = nm) (set_parallels (fst (process_group uid g))) = [] \<and>
       parallel_name_step ?attrs st (nm, rs) = foldl (attach_row ?attrs nm) st rs"
    using f by (simp add: parallel_name_step_card_level)
  have H: "\<forall>s row i.
       i < length (base_cards s) \<and>
       card_number (base_cards s ! i) = ?canon row \<and>
       (\<forall>j<i. card_number (base_cards s ! j) \<noteq> ?canon row) \<longrightarrow>
       attach_row ?attrs nm s row =
         s\<lparr>base_cards := (base_cards s)[i := (base_cards s ! i)\<lparr>card_parallels :=
              Some ((case card_parallels (base_cards s ! i) of None \<Rightarrow> [] | Some ps \<Rightarrow> ps) @
                    [\<lparr>parallel_name = nm, parallel_numberedTo = seq_value_of row\<rparr>])\<rparr>]\<rparr>"
    by (intro allI impI attach_row_match) simp_all
  have I: "\<forall>s row.
       (\<forall>c \<in> set (base_cards s). card_number c \<noteq> ?canon row) \<longrightarrow>
       attach_row ?attrs nm s row =
         s\<lparr>base_cards := base_cards s @
              [\<lparr>card_uniqueId = next_uuid s,
                card_number = ?canon row,
                card_name = normalize_text (ATHLETE row),
                card_sequence = None,
                card_parallels = Some [\<lparr>parallel_name = nm, parallel_numberedTo = seq_value_of row\<rparr>],
                card_attributes = (if ?attrs \<noteq> [] then Some ?attrs else None),
                card_numberedTo = seq_value_of row,
                card_note = Some ''No Base Set Version''\<rparr>],
            base_card_numbers := insert (?canon row) (base_card_numbers s),
            next_uuid := Suc (next_uuid s)\<rparr>"
  proof (intro allI impI)
    fix s :: synth_state and row :: RawRow
    assume "\<forall>c \<in> set (base_cards s). card_number c \<noteq> ?canon row"
    from attach_row_no_match[OF this, of ?attrs nm]
    show "attach_row ?attrs nm s row =
         s\<lparr>base_cards := base_cards s @
              [\<lparr>card_uniqueId = next_uuid s,
                card_number = ?canon row,
                card_name = normalize_text (ATHLETE row),
                card_sequence = None,
                card_parallels = Some [\<lparr>parallel_name = nm, parallel_numberedTo = seq_value_of row\<rparr>],
                card_attributes = (if ?attrs \<noteq> [] then Some ?attrs else None),
                card_numberedTo = seq_value_of row,
                card_note = Some ''No Base Set Version''\<rparr>],
            base_card_numbers := insert (?canon row) (base_card_numbers s),
            next_uuid := Suc (next_uuid s)\<rparr>"
      by (simp add: new_card_def)
  qed
  from A B C D E F G H I show ?thesis
    by (intro conjI)
qed


lemma example_number_values:
  "normalize_card_number ''1'' = ''1''" "normalize_card_number ''2'' = ''2''"
  by code_simp+

lemma example_numbers:
  "normalize_card_number (CARD_NUMBER (mk_row i s ''1'' a q)) = ''1''"
  "normalize_card_number (CARD_NUMBER (mk_row i s ''2'' a q)) = ''2''"
  by (simp_all add: mk_row_def example_number_values)

lemma gold_first_names:
  "parallels_by_name (parallel_rows gold_first_group) =
     [] @ (''Gold'', [mk_row 1 ''Topps Gold'' ''2'' ''B'' ''5'']) #
          [(''Silver'', [mk_row 2 ''Topps Silver'' ''1'' ''A'' ''50''])]"
  by (simp add: gold_first_group_def parallels_by_name_def)

lemma silver_first_names:
  "parallels_by_name (parallel_rows silver_first_group) =
     [] @ (''Silver'', [mk_row 2 ''Topps Silver'' ''1'' ''A'' ''50'']) #
          [(''Gold'', [mk_row 1 ''Topps Gold'' ''2'' ''B'' ''5''])]"
  by (simp add: silver_first_group_def parallels_by_name_def)

lemma example_clean_numbers:
  "base_card_numbers (clean_stage 0 gold_first_group) = {''1''}"
  "base_card_numbers (clean_stage 0 silver_first_group) = {''1''}"
  by (simp_all add: clean_stage_eq gold_first_group_def silver_first_group_def example_numbers)

theorem parallel_rows_spec_witness:
  "parallels_by_name (parallel_rows silver_first_group) =
     [] @ (''Silver'', [mk_row 2 ''Topps Silver'' ''1'' ''A'' ''50'']) #
          [(''Gold'', [mk_row 1 ''Topps Gold'' ''2'' ''B'' ''5''])] \<and>
   (\<lambda>r. normalize_card_number (CARD_NUMBER r)) ` set [mk_row 2 ''Topps Silver'' ''1'' ''A'' ''50''] =
     base_card_numbers (clean_stage 0 silver_first_group) \<and>
   filter (\<lambda>p. parallel_name p = ''Silver'') (set_parallels (fst (process_group 0 silver_first_group))) =
     [\<lparr>parallel_name = ''Silver'', parallel_numberedTo = Some 50\<rparr>] \<and>
   parallels_by_name (parallel_rows gold_first_group) =
     [] @ (''Gold'', [mk_row 1 ''Topps Gold'' ''2'' ''B'' ''5'']) #
          [(''Silver'', [mk_row 2 ''Topps Silver'' ''1'' ''A'' ''50''])] \<and>
   (\<lambda>r. normalize_card_number (CARD_NUMBER r)) ` set [mk_row 1 ''Topps Gold'' ''2'' ''B'' ''5''] \<noteq>
     base_card_numbers (clean_stage 0 gold_first_group) \<and>
   filter (\<lambda>p. parallel_name p = ''Gold'') (set_parallels (fst (process_group 0 gold_first_group))) = []"
proof -
  let ?silver = "mk_row 2 ''Topps Silver'' ''1'' ''A'' ''50''"
  let ?gold = "mk_row 1 ''Topps Gold'' ''2'' ''B'' ''5''"
  have s0: "clean_stage 0 silver_first_group =
            foldl (parallel_name_step (get_attributes_for_set (base_set silver_first_group)))
                  (clean_stage 0 silver_first_group) []"
    by simp
  have g0: "clean_stage 0 gold_first_group =
            foldl (parallel_name_step (get_attributes_for_set (base_set gold_first_group)))
                  (clean_stage 0 gold_first_group) []"
    by simp
  have cov: "(\<lambda>r. normalize_card_number (CARD_NUMBER r)) ` set [?silver] =
             base_card_numbers (clean_stage 0 silver_first_group)"
    by (simp add: example_clean_numbers example_numbers)
  have ncov: "(\<lambda>r. normalize_card_number (CARD_NUMBER r)) ` set [?gold] \<noteq>
             base_card_numbers (clean_stage 0 gold_first_group)"
    by (simp add: example_clean_numbers example_numbers)
  note ts = parallel_rows_spec[OF silver_first_names s0, THEN conjunct2, THEN conjunct2, THEN conjunct2,
      THEN conjunct2, THEN conjunct2, THEN conjunct1, rule_format, OF cov, THEN conjunct1]
  then obtain X where
    x1: "filter (\<lambda>p. parallel_name p = ''Silver'') (set_parallels (fst (process_group 0 silver_first_group))) =
         [\<lparr>parallel_name = ''Silver'', parallel_numberedTo = X\<rparr>]"
    and x2: "\<forall>V. (\<forall>r \<in> set [?silver]. seq_value_of r = Some V) \<longrightarrow> X = Some V"
    by blast
  have "\<forall>r \<in> set [?silver]. seq_value_of r = Some 50"
    by (simp add: example_sequences)
  with x2 have "X = Some 50" by blast
  with x1 have a: "filter (\<lambda>p. parallel_name p = ''Silver'')
        (set_parallels (fst (process_group 0 silver_first_group))) =
         [\<lparr>parallel_name = ''Silver'', parallel_numberedTo = Some 50\<rparr>]"
    by simp
  note tg = parallel_rows_spec[OF gold_first_names g0, THEN conjunct2, THEN conjunct2, THEN conjunct2,
      THEN conjunct2, THEN conjunct2, THEN conjunct2, THEN conjunct1, rule_format, OF ncov,
      THEN conjunct1]
  from silver_first_names cov a gold_first_names ncov tg show ?thesis
    by (intro conjI)
qed

lemma gold_first_result: "set_parallels (fst (process_group 0 gold_first_group)) = []"
  by code_simp

lemma gold_first_silver_covers_base:
  "(\<lambda>r. normalize_card_number (CARD_NUMBER r)) ` set [mk_row 2 ''Topps Silver'' ''1'' ''A'' ''50''] =
   (\<lambda>r. normalize_card_number (CARD_NUMBER r)) ` set (base_rows gold_first_group)"
  by (simp add: gold_first_group_def example_numbers)

text \<open>
  A name whose rows cover exactly the numbers of the base rows is not always recorded at
  the set level: with the base card 1, a row of \<^verbatim>\<open>Gold\<close> for card 2 and then a row of
  \<^verbatim>\<open>Silver\<close> for card 1, the set has no set-level parallel, since the card made for
  \<^verbatim>\<open>Gold\<close> counts among the cards when \<^verbatim>\<open>Silver\<close> is reached.
\<close>

theorem parallel_rows_counterexample:
  "\<not> (\<forall>uid g nm rs.
        (nm, rs) \<in> set (parallels_by_name (parallel_rows g)) \<and>
        (\<lambda>r. normalize_card_number (CARD_NUMBER r)) ` set rs =
        (\<lambda>r. normalize_card_number (CARD_NUMBER r)) ` set (base_rows g) \<longrightarrow>
        (\<exists>p \<in> set (set_parallels (fst (process_group uid g))). parallel_name p = nm))"
proof
  assume H: "\<forall>uid g nm rs.
        (nm, rs) \<in> set (parallels_by_name (parallel_rows g)) \<and>
        (\<lambda>r. normalize_card_number (CARD_NUMBER r)) ` set rs =
        (\<lambda>r. normalize_card_number (CARD_NUMBER r)) ` set (base_rows g) \<longrightarrow>
        (\<exists>p \<in> set (set_parallels (fst (process_group uid g))). parallel_name p = nm)"
  have m: "(''Silver'', [mk_row 2 ''Topps Silver'' ''1'' ''A'' ''50'']) \<in>
           set (parallels_by_name (parallel_rows gold_first_group))"
    unfolding gold_first_names by simp
  have "\<exists>p \<in> set (set_parallels (fst (process_group 0 gold_first_group))). parallel_name p = ''Silver''"
    by (rule H[rule_format, OF conjI[OF m gold_first_silver_covers_base]])
  then show False
    unfolding gold_first_result by simp
qed

section \<open>The order of the parallel names\<close>

lemma silver_first_result:
  "set_parallels (fst (process_group 0 silver_first_group)) =
     [\<lparr>parallel_name = ''Silver'', parallel_numberedTo = Some 50\<rparr>]"
  by code_simp

lemma example_groups_same_rows:
  "base_rows gold_first_group = base_rows silver_first_group \<and>
   mset (parallel_rows gold_first_group) = mset (parallel_rows silver_first_group)"
  by (simp add: gold_first_group_def silver_first_group_def)

text \<open>
  C10. When a row of a parallel name finds no card with its canonical number, a new
  card with that number is appended to the cards and the number is added to
  \<open>base_card_numbers\<close>. The names are taken one after the other, each on the state the
  names before it have left, and a name is set-level exactly when the numbers of its
  rows are the \<open>base_card_numbers\<close> of that state, card-level otherwise. The names come
  in the order of their first appearance in \<open>parallel_rows\<close> (the names, each kept at
  its first place). So the class of a name depends on the names before it: two groups
  with the same base row and the same two parallel rows in different orders give
  \<^verbatim>\<open>Silver\<close> as a card-level parallel when \<^verbatim>\<open>Gold\<close> comes first, and as a set-level
  parallel when \<^verbatim>\<open>Silver\<close> comes first.
\<close>

theorem placeholder_enlarges_numbers:
  "(\<forall>s row.
      (\<forall>c \<in> set (base_cards s). card_number c \<noteq> normalize_card_number (CARD_NUMBER row)) \<longrightarrow>
      base_cards (attach_row attrs nm s row) =
        base_cards s @ [new_card attrs (next_uuid s) row
                          \<lparr>parallel_name = nm, parallel_numberedTo = seq_value_of row\<rparr>] \<and>
      card_number (new_card attrs (next_uuid s) row
                     \<lparr>parallel_name = nm, parallel_numberedTo = seq_value_of row\<rparr>) =
        normalize_card_number (CARD_NUMBER row) \<and>
      base_card_numbers (attach_row attrs nm s row) =
        insert (normalize_card_number (CARD_NUMBER row)) (base_card_numbers s)) \<and>
   parallel_stage uid g =
     foldl (parallel_name_step (get_attributes_for_set (base_set g))) (clean_stage uid g)
           (parallels_by_name (parallel_rows g)) \<and>
   foldl (parallel_name_step attrs) st (es1 @ (nm, rs) # es2) =
     foldl (parallel_name_step attrs)
           (parallel_name_step attrs (foldl (parallel_name_step attrs) st es1) (nm, rs)) es2 \<and>
   ((\<lambda>r. normalize_card_number (CARD_NUMBER r)) ` set rs = base_card_numbers st \<longrightarrow>
      parallel_name_step attrs st (nm, rs) =
        st\<lparr>set_level_parallels := set_level_parallels st @ [set_level_parallel nm rs]\<rparr>) \<and>
   ((\<lambda>r. normalize_card_number (CARD_NUMBER r)) ` set rs \<noteq> base_card_numbers st \<longrightarrow>
      parallel_name_step attrs st (nm, rs) = foldl (attach_row attrs nm) st rs) \<and>
   map fst (parallels_by_name prs) = rev (remdups (rev (map snd prs))) \<and>
   base_rows gold_first_group = base_rows silver_first_group \<and>
   mset (parallel_rows gold_first_group) = mset (parallel_rows silver_first_group) \<and>
   filter (\<lambda>p. parallel_name p = ''Silver'') (set_parallels (fst (process_group 0 gold_first_group))) = [] \<and>
   filter (\<lambda>p. parallel_name p = ''Silver'') (set_parallels (fst (process_group 0 silver_first_group))) =
     [\<lparr>parallel_name = ''Silver'', parallel_numberedTo = Some 50\<rparr>]"
proof -
  have A: "\<forall>s row.
      (\<forall>c \<in> set (base_cards s). card_number c \<noteq> normalize_card_number (CARD_NUMBER row)) \<longrightarrow>
      base_cards (attach_row attrs nm s row) =
        base_cards s @ [new_card attrs (next_uuid s) row
                          \<lparr>parallel_name = nm, parallel_numberedTo = seq_value_of row\<rparr>] \<and>
      card_number (new_card attrs (next_uuid s) row
                     \<lparr>parallel_name = nm, parallel_numberedTo = seq_value_of row\<rparr>) =
        normalize_card_number (CARD_NUMBER row) \<and>
      base_card_numbers (attach_row attrs nm s row) =
        insert (normalize_card_number (CARD_NUMBER row)) (base_card_numbers s)"
  proof (intro allI impI)
    fix s :: synth_state and row :: RawRow
    assume "\<forall>c \<in> set (base_cards s). card_number c \<noteq> normalize_card_number (CARD_NUMBER row)"
    from attach_row_no_match[OF this, of attrs nm]
    show "base_cards (attach_row attrs nm s row) =
        base_cards s @ [new_card attrs (next_uuid s) row
                          \<lparr>parallel_name = nm, parallel_numberedTo = seq_value_of row\<rparr>] \<and>
      card_number (new_card attrs (next_uuid s) row
                     \<lparr>parallel_name = nm, parallel_numberedTo = seq_value_of row\<rparr>) =
        normalize_card_number (CARD_NUMBER row) \<and>
      base_card_numbers (attach_row attrs nm s row) =
        insert (normalize_card_number (CARD_NUMBER row)) (base_card_numbers s)"
      by (simp add: new_card_def)
  qed
  have B: "parallel_stage uid g =
     foldl (parallel_name_step (get_attributes_for_set (base_set g))) (clean_stage uid g)
           (parallels_by_name (parallel_rows g))"
    by (simp add: parallel_stage_def)
  have C: "foldl (parallel_name_step attrs) st (es1 @ (nm, rs) # es2) =
     foldl (parallel_name_step attrs)
           (parallel_name_step attrs (foldl (parallel_name_step attrs) st es1) (nm, rs)) es2"
    by simp
  have D: "(\<lambda>r. normalize_card_number (CARD_NUMBER r)) ` set rs = base_card_numbers st \<longrightarrow>
      parallel_name_step attrs st (nm, rs) =
        st\<lparr>set_level_parallels := set_level_parallels st @ [set_level_parallel nm rs]\<rparr>"
    by (intro impI parallel_name_step_set_level)
  have E: "(\<lambda>r. normalize_card_number (CARD_NUMBER r)) ` set rs \<noteq> base_card_numbers st \<longrightarrow>
      parallel_name_step attrs st (nm, rs) = foldl (attach_row attrs nm) st rs"
    by (intro impI parallel_name_step_card_level)
  have F: "map fst (parallels_by_name prs) = rev (remdups (rev (map snd prs)))"
    by (rule parallels_by_name_keys)
  have G: "base_rows gold_first_group = base_rows silver_first_group"
    and H: "mset (parallel_rows gold_first_group) = mset (parallel_rows silver_first_group)"
    using example_groups_same_rows by blast+
  have I: "filter (\<lambda>p. parallel_name p = ''Silver'')
             (set_parallels (fst (process_group 0 gold_first_group))) = []"
    by (simp add: gold_first_result)
  have J: "filter (\<lambda>p. parallel_name p = ''Silver'')
             (set_parallels (fst (process_group 0 silver_first_group))) =
     [\<lparr>parallel_name = ''Silver'', parallel_numberedTo = Some 50\<rparr>]"
    by (simp add: silver_first_result)
  from A B C D E F G H I J show ?thesis
    by (intro conjI)
qed

lemma gold_first_clean_cards:
  "base_cards (clean_stage 0 gold_first_group) = [plain_card 0 ''1'' ''A'' None]"
  by code_simp

theorem placeholder_enlarges_numbers_witness:
  "base_cards (clean_stage 0 gold_first_group) = [plain_card 0 ''1'' ''A'' None] \<and>
   card_number (plain_card 0 ''1'' ''A'' None) \<noteq>
     normalize_card_number (CARD_NUMBER (mk_row 1 ''Topps Gold'' ''2'' ''B'' ''5'')) \<and>
   base_card_numbers (attach_row [] ''Gold'' (clean_stage 0 gold_first_group)
                        (mk_row 1 ''Topps Gold'' ''2'' ''B'' ''5'')) = {''1'', ''2''} \<and>
   (\<lambda>r. normalize_card_number (CARD_NUMBER r)) ` set [mk_row 2 ''Topps Silver'' ''1'' ''A'' ''50''] \<noteq>
     {''1'', ''2''} \<and>
   (\<lambda>r. normalize_card_number (CARD_NUMBER r)) ` set [mk_row 2 ''Topps Silver'' ''1'' ''A'' ''50''] =
     base_card_numbers (clean_stage 0 silver_first_group) \<and>
   parallel_name_step [] (clean_stage 0 silver_first_group)
       (''Silver'', [mk_row 2 ''Topps Silver'' ''1'' ''A'' ''50'']) =
     (clean_stage 0 silver_first_group)
       \<lparr>set_level_parallels := [set_level_parallel ''Silver'' [mk_row 2 ''Topps Silver'' ''1'' ''A'' ''50'']]\<rparr>"
proof -
  let ?gold = "mk_row 1 ''Topps Gold'' ''2'' ''B'' ''5''"
  let ?silver = "mk_row 2 ''Topps Silver'' ''1'' ''A'' ''50''"
  have n: "card_number (plain_card 0 ''1'' ''A'' None) \<noteq> normalize_card_number (CARD_NUMBER ?gold)"
    by (simp add: plain_card_def example_numbers)
  then have h: "\<forall>c \<in> set (base_cards (clean_stage 0 gold_first_group)).
                 card_number c \<noteq> normalize_card_number (CARD_NUMBER ?gold)"
    by (simp add: gold_first_clean_cards)
  note t = placeholder_enlarges_numbers[of "[]" "''Gold''", THEN conjunct1, THEN spec, THEN spec,
      THEN mp, OF h, THEN conjunct2, THEN conjunct2]
  have a: "base_card_numbers (attach_row [] ''Gold'' (clean_stage 0 gold_first_group) ?gold) = {''1'', ''2''}"
    unfolding t by (auto simp: example_clean_numbers example_numbers)
  have b: "(\<lambda>r. normalize_card_number (CARD_NUMBER r)) ` set [?silver] \<noteq> {''1'', ''2''}"
    by (auto simp: example_numbers)
  have cov: "(\<lambda>r. normalize_card_number (CARD_NUMBER r)) ` set [?silver] =
             base_card_numbers (clean_stage 0 silver_first_group)"
    by (simp add: example_clean_numbers example_numbers)
  note u = placeholder_enlarges_numbers[of "[]" "''Silver''" _ _ "clean_stage 0 silver_first_group" "[]"
      "[?silver]", THEN conjunct2, THEN conjunct2, THEN conjunct2, THEN conjunct1, rule_format, OF cov]
  have c: "parallel_name_step [] (clean_stage 0 silver_first_group) (''Silver'', [?silver]) =
     (clean_stage 0 silver_first_group)
       \<lparr>set_level_parallels := [set_level_parallel ''Silver'' [?silver]]\<rparr>"
    unfolding u by (simp add: clean_stage_eq)
  from gold_first_clean_cards n a b cov c show ?thesis
    by (intro conjI)
qed

end
